theory Spec2Isabelle
  imports Main "HOL-Library.Word"
begin

section \<open>Data model of the resource-tree service\<close>

text \<open>
  The service is written in Go. Its \<open>int\<close> is taken at 64 bits (the width on the
  platforms the service is deployed on): arithmetic wraps around, comparisons are signed
  (\<open>sint\<close>).
\<close>

type_synonym go_int = "64 word"

text \<open>
  The error values the service creates or passes on. The messages of the source are
  Chinese text; each \<open>errors.New\<close> call site is one constructor.
  \<^item> \<open>ErrResourceBound\<close>, \<open>ErrResourceNotFound\<close>: the two package-level sentinels;
  \<^item> \<open>ErrGetParentFailed\<close> to \<open>ErrTreeNodeHasChildren\<close>: the errors made in
    \<open>CreateTreeNode\<close> and \<open>DeleteTreeNode\<close>;
  \<^item> \<open>ErrRecordNotFound\<close>, \<open>ErrStore\<close>: errors that come out of a store;
  \<^item> \<open>ErrWrap\<close>: \<open>fmt.Errorf("...: %w", err)\<close>;
  \<^item> \<open>PanicNilDeref\<close>, \<open>PanicSliceBounds\<close>: run-time panics (not returned values).
\<close>

datatype wrap_msg = MsgResourceNotFound | MsgGetEcsFailed | MsgDeleteEcsFailed

datatype error =
    ErrResourceBound
  | ErrResourceNotFound
  | ErrGetParentFailed
  | ErrParentNotExist
  | ErrLevelExceeded
  | ErrParentIsLeaf
  | ErrNodeNotExist
  | ErrTreeNodeHasChildren
  | ErrRecordNotFound
  | ErrStore nat
  | ErrWrap wrap_msg error
  | PanicNilDeref
  | PanicSliceBounds

text \<open>\<open>errors.Is\<close>: the error itself or anything it wraps.\<close>

fun errors_Is :: "error \<Rightarrow> error \<Rightarrow> bool" where
  "errors_Is (ErrWrap m e) target = (ErrWrap m e = target \<or> errors_Is e target)"
| "errors_Is e target = (e = target)"

text \<open>
  \<open>model.TreeNode\<close>, with the fields the service reads or writes. The pointer lists
  are kept by identity: \<open>Children\<close> holds addresses (positions in the slice the node
  store returned, see \<open>ListTreeNodes\<close>), \<open>BindEcs\<close> the IDs of the bound ECS
  resources.
\<close>

record TreeNode =
  ID :: go_int
  Pid :: go_int
  Level :: go_int
  IsLeaf :: go_int
  Key :: string
  Value :: go_int
  Children :: "nat list"
  BindEcs :: "go_int list"

text \<open>
  \<open>model.ResourceTree\<close> (the part shared by ECS, ELB and RDS records) and a resource
  with its bound nodes; \<open>BindNodes\<close> holds the IDs of the bound tree nodes, the only
  field of them the service reads. The three resource types have the same shape.
\<close>

record ResourceTree =
  ResID :: go_int
  InstanceName :: string
  IpAddr :: string
  Hash :: string

record Resource =
  Tree :: ResourceTree
  BindNodes :: "go_int list"

type_synonym ResourceEcs = Resource
type_synonym ResourceElb = Resource
type_synonym ResourceRds = Resource

subsection \<open>The stores\<close>

text \<open>The persistent state: the node table and the three resource tables.\<close>

record db =
  node_rows :: "TreeNode list"
  ecs_rows :: "Resource list"
  elb_rows :: "Resource list"
  rds_rows :: "Resource list"

text \<open>
  The store interfaces \<open>TreeNodeDAO\<close> and \<open>TreeEcsDAO\<close>/\<open>TreeElbDAO\<close>/\<open>TreeRdsDAO\<close>
  as the service uses them: a read returns an error or a value (a pointer result may
  be nil: \<open>None\<close>), a write returns an optional error and the new state.
\<close>

record TreeNodeDAO =
  nodeDao_GetAll :: "db \<Rightarrow> error + TreeNode list"
  nodeDao_GetAllNoPreload :: "db \<Rightarrow> error + TreeNode list"
  nodeDao_GetByID :: "db \<Rightarrow> go_int \<Rightarrow> error + TreeNode option"
  nodeDao_HasChildren :: "db \<Rightarrow> go_int \<Rightarrow> error + bool"
  nodeDao_Create :: "db \<Rightarrow> TreeNode \<Rightarrow> error option \<times> db"
  nodeDao_Delete :: "db \<Rightarrow> go_int \<Rightarrow> error option \<times> db"

record ResourceDAO =
  resDao_GetAll :: "db \<Rightarrow> error + Resource list"
  resDao_GetByID :: "db \<Rightarrow> go_int \<Rightarrow> error + Resource option"
  resDao_Delete :: "db \<Rightarrow> go_int \<Rightarrow> error option \<times> db"

record treeService =
  ecsDao :: ResourceDAO
  elbDao :: ResourceDAO
  rdsDao :: ResourceDAO
  nodeDao :: TreeNodeDAO

text \<open>
  Modelled from the spec: the Node Store (the implementation of \<open>TreeNodeDAO\<close> is not
  part of the sources). \<open>GetAll\<close> and \<open>GetAllNoPreload\<close> return the flat node list,
  \<open>GetByID\<close> the node with that ID, \<open>HasChildren\<close> whether some node has the ID as
  its parent, \<open>Create\<close> adds the node, \<open>Delete\<close> removes the node with the ID. The
  spec does not say how the store reports an absent row to \<open>GetByID\<close> (an error, or a
  nil node and no error); the service handles both, and the flag \<open>nilAbsent\<close> chooses.
\<close>

definition memNodeDao :: "bool \<Rightarrow> TreeNodeDAO" where
  "memNodeDao nilAbsent =
    \<lparr> nodeDao_GetAll = (\<lambda>s. Inr (node_rows s)),
      nodeDao_GetAllNoPreload = (\<lambda>s. Inr (node_rows s)),
      nodeDao_GetByID = (\<lambda>s i.
         case find (\<lambda>n. ID n = i) (node_rows s) of
           Some n \<Rightarrow> Inr (Some n)
         | None \<Rightarrow> if nilAbsent then Inr None else Inl ErrRecordNotFound),
      nodeDao_HasChildren = (\<lambda>s i. Inr (list_ex (\<lambda>n. Pid n = i) (node_rows s))),
      nodeDao_Create = (\<lambda>s obj. (None, s\<lparr>node_rows := node_rows s @ [obj]\<rparr>)),
      nodeDao_Delete = (\<lambda>s i. (None, s\<lparr>node_rows := filter (\<lambda>n. ID n \<noteq> i) (node_rows s)\<rparr>)) \<rparr>"

text \<open>
  Modelled from the spec: the ECS Resource Store (the implementation of \<open>TreeEcsDAO\<close>
  is not part of the sources). \<open>GetByID\<close> fails with the not-found sentinel when the
  resource is absent; \<open>Delete\<close> removes the resource with the ID.
\<close>

definition memEcsDao :: ResourceDAO where
  "memEcsDao =
    \<lparr> resDao_GetAll = (\<lambda>s. Inr (ecs_rows s)),
      resDao_GetByID = (\<lambda>s i.
         case find (\<lambda>r. ResID (Tree r) = i) (ecs_rows s) of
           Some r \<Rightarrow> Inr (Some r)
         | None \<Rightarrow> Inl ErrResourceNotFound),
      resDao_Delete = (\<lambda>s i.
         (None, s\<lparr>ecs_rows := filter (\<lambda>r. ResID (Tree r) \<noteq> i) (ecs_rows s)\<rparr>)) \<rparr>"

text \<open>
  Modelled from the spec: the ELB and RDS Resource Stores, of the same shape as the ECS
  store, each over its own table.
\<close>

definition memElbDao :: ResourceDAO where
  "memElbDao =
    \<lparr> resDao_GetAll = (\<lambda>s. Inr (elb_rows s)),
      resDao_GetByID = (\<lambda>s i.
         case find (\<lambda>r. ResID (Tree r) = i) (elb_rows s) of
           Some r \<Rightarrow> Inr (Some r)
         | None \<Rightarrow> Inl ErrResourceNotFound),
      resDao_Delete = (\<lambda>s i.
         (None, s\<lparr>elb_rows := filter (\<lambda>r. ResID (Tree r) \<noteq> i) (elb_rows s)\<rparr>)) \<rparr>"

definition memRdsDao :: ResourceDAO where
  "memRdsDao =
    \<lparr> resDao_GetAll = (\<lambda>s. Inr (rds_rows s)),
      resDao_GetByID = (\<lambda>s i.
         case find (\<lambda>r. ResID (Tree r) = i) (rds_rows s) of
           Some r \<Rightarrow> Inr (Some r)
         | None \<Rightarrow> Inl ErrResourceNotFound),
      resDao_Delete = (\<lambda>s i.
         (None, s\<lparr>rds_rows := filter (\<lambda>r. ResID (Tree r) \<noteq> i) (rds_rows s)\<rparr>)) \<rparr>"

section \<open>Node lifecycle\<close>

text \<open>\<open>ListLeafTreeNodes\<close>: the loop skips every node whose \<open>BindEcs\<close> has length 0.\<close>

fun leafLoop :: "TreeNode list \<Rightarrow> TreeNode list \<Rightarrow> TreeNode list" where
  "leafLoop [] leafNodes = leafNodes"
| "leafLoop (node # nodes) leafNodes =
     (if length (BindEcs node) = 0 then leafLoop nodes leafNodes
      else leafLoop nodes (leafNodes @ [node]))"

definition ListLeafTreeNodes :: "treeService \<Rightarrow> db \<Rightarrow> error + TreeNode list" where
  "ListLeafTreeNodes ts s =
     (case nodeDao_GetAll (nodeDao ts) s of
        Inl err \<Rightarrow> Inl err
      | Inr nodes \<Rightarrow> Inr (leafLoop nodes []))"

text \<open>
  \<open>CreateTreeNode\<close>. The level check is \<open>obj.Level >= node.Level+2\<close>, a signed
  comparison with a wrapping sum.
\<close>

definition CreateTreeNode :: "treeService \<Rightarrow> db \<Rightarrow> TreeNode \<Rightarrow> error option \<times> db" where
  "CreateTreeNode ts s obj =
     (if Pid obj = 0 \<and> Level obj = 1 then nodeDao_Create (nodeDao ts) s obj
      else case nodeDao_GetByID (nodeDao ts) s (Pid obj) of
        Inl err \<Rightarrow> (Some ErrGetParentFailed, s)
      | Inr None \<Rightarrow> (Some ErrParentNotExist, s)
      | Inr (Some node) \<Rightarrow>
          if sint (Level node + 2) \<le> sint (Level obj) then (Some ErrLevelExceeded, s)
          else if IsLeaf node = 1 then (Some ErrParentIsLeaf, s)
          else nodeDao_Create (nodeDao ts) s obj)"

text \<open>\<open>DeleteTreeNode\<close>.\<close>

definition DeleteTreeNode :: "treeService \<Rightarrow> db \<Rightarrow> go_int \<Rightarrow> error option \<times> db" where
  "DeleteTreeNode ts s i =
     (case nodeDao_GetByID (nodeDao ts) s i of
        Inl err \<Rightarrow> (Some err, s)
      | Inr None \<Rightarrow> (Some ErrNodeNotExist, s)
      | Inr (Some treeNode) \<Rightarrow>
          (case nodeDao_HasChildren (nodeDao ts) s i of
             Inl err \<Rightarrow> (Some err, s)
           | Inr hasChildren \<Rightarrow>
               if hasChildren then (Some ErrTreeNodeHasChildren, s)
               else (case nodeDao_Delete (nodeDao ts) s i of
                       (Some err, s') \<Rightarrow> (Some err, s')
                     | (None, s') \<Rightarrow> (None, s'))))"

text \<open>
  \<open>DeleteEcsResource\<close>. The resource pointer is read without a nil check, so a store
  that returns no error and no resource makes the read of \<open>BindNodes\<close> panic.
\<close>

definition DeleteEcsResource :: "treeService \<Rightarrow> db \<Rightarrow> go_int \<Rightarrow> error option \<times> db" where
  "DeleteEcsResource ts s i =
     (case resDao_GetByID (ecsDao ts) s i of
        Inl err \<Rightarrow>
          if errors_Is err ErrResourceNotFound
          then (Some (ErrWrap MsgResourceNotFound err), s)
          else (Some (ErrWrap MsgGetEcsFailed err), s)
      | Inr None \<Rightarrow> (Some PanicNilDeref, s)
      | Inr (Some resource) \<Rightarrow>
          if length (BindNodes resource) > 0 then (Some ErrResourceBound, s)
          else (case resDao_Delete (ecsDao ts) s i of
                  (Some err, s') \<Rightarrow> (Some (ErrWrap MsgDeleteEcsFailed err), s')
                | (None, s') \<Rightarrow> (None, s')))"

section \<open>Tree Builder\<close>

text \<open>\<open>strconv.Itoa\<close>: the signed decimal numeral of a Go \<open>int\<close>.\<close>

definition digit_char :: "nat \<Rightarrow> char" where
  "digit_char d = ''0123456789'' ! d"

function digits :: "nat \<Rightarrow> string" where
  "digits n = (if n < 10 then [digit_char n] else digits (n div 10) @ [digit_char (n mod 10)])"
  by pat_completeness auto
termination
  by (relation "measure (\<lambda>n. n)") auto

definition Itoa :: "go_int \<Rightarrow> string" where
  "Itoa i = (if sint i < 0 then CHR ''-'' # digits (nat (- sint i)) else digits (nat (sint i)))"

text \<open>
  Reading a Go map of slices at a key it does not hold gives the nil slice.
\<close>

definition sliceAt :: "('k \<rightharpoonup> 'v list) \<Rightarrow> 'k \<Rightarrow> 'v list" where
  "sliceAt m k = (case m k of None \<Rightarrow> [] | Some xs \<Rightarrow> xs)"

text \<open>
  \<open>ListTreeNodes\<close> works on the slice of node pointers the store returned and mutates
  the nodes in place. The nodes form a heap: the address of a node is its position in
  that slice, \<open>topNodes\<close> and the \<open>Children\<close> fields hold addresses.

  First loop, at the node with address \<open>a\<close>: set \<open>Key\<close>, then file the node under the
  top nodes (\<open>Pid == 0\<close>) or under its parent's ID in \<open>childrenMap\<close>.
\<close>

definition classify ::
  "nat \<Rightarrow> TreeNode list \<times> nat list \<times> (go_int \<rightharpoonup> nat list)
       \<Rightarrow> TreeNode list \<times> nat list \<times> (go_int \<rightharpoonup> nat list)" where
  "classify a st =
     (case st of (heap, topNodes, childrenMap) \<Rightarrow>
        let node = (heap ! a)\<lparr>Key := Itoa (ID (heap ! a))\<rparr>;
            heap' = heap[a := node]
        in if Pid node = 0 then (heap', topNodes @ [a], childrenMap)
           else (heap', topNodes,
                 childrenMap(Pid node \<mapsto> sliceAt childrenMap (Pid node) @ [a])))"

text \<open>Second loop, at address \<open>a\<close>: attach the children filed under the node's ID.\<close>

definition attach :: "(go_int \<rightharpoonup> nat list) \<Rightarrow> nat \<Rightarrow> TreeNode list \<Rightarrow> TreeNode list" where
  "attach childrenMap a heap =
     (case childrenMap (ID (heap ! a)) of
        Some children \<Rightarrow> heap[a := (heap ! a)\<lparr>Children := children\<rparr>]
      | None \<Rightarrow> heap)"

definition buildTree :: "TreeNode list \<Rightarrow> nat list \<times> TreeNode list" where
  "buildTree nodes =
     (case fold classify [0..<length nodes] (nodes, [], Map.empty) of
        (heap, topNodes, childrenMap) \<Rightarrow>
          (topNodes, fold (attach childrenMap) [0..<length nodes] heap))"

text \<open>The result is the list of root addresses and the heap they point into.\<close>

definition ListTreeNodes :: "treeService \<Rightarrow> db \<Rightarrow> error + nat list \<times> TreeNode list" where
  "ListTreeNodes ts s =
     (case nodeDao_GetAll (nodeDao ts) s of
        Inl err \<Rightarrow> Inl err
      | Inr nodes \<Rightarrow> Inr (buildTree nodes))"

text \<open>
  The forest \<open>ListTreeNodes\<close> returns is what the caller can reach: the nodes of the
  root list, and the nodes in the \<open>Children\<close> list of a node that can be reached.
\<close>

inductive_set reachable :: "nat list \<times> TreeNode list \<Rightarrow> nat set"
  for forest :: "nat list \<times> TreeNode list" where
  top: "a \<in> set (fst forest) \<Longrightarrow> a \<in> reachable forest"
| child: "b \<in> reachable forest \<Longrightarrow> b < length (snd forest) \<Longrightarrow>
          a \<in> set (Children (snd forest ! b)) \<Longrightarrow> a \<in> reachable forest"

text \<open>
  How often the node at address \<open>a\<close> occurs in the returned forest: in the root list,
  and in the \<open>Children\<close> lists of the nodes that can be reached from the root list. The
  \<open>Children\<close> list of a heap cell that cannot be reached is not part of the result and
  does not count.
\<close>

definition occurrences :: "nat list \<times> TreeNode list \<Rightarrow> nat \<Rightarrow> nat" where
  "occurrences forest a =
     count_list (fst forest) a
     + sum_list (map (\<lambda>b. count_list (Children (snd forest ! b)) a)
                  (filter (\<lambda>b. b \<in> reachable forest) [0..<length (snd forest)]))"

text \<open>
  The heap cells, reachable or not, that hold the node at address \<open>a\<close> in their
  \<open>Children\<close> list.
\<close>

definition parentsOf :: "nat list \<times> TreeNode list \<Rightarrow> nat \<Rightarrow> nat list" where
  "parentsOf forest a = filter (\<lambda>b. a \<in> set (Children (snd forest ! b))) [0..<length (snd forest)]"

text \<open>
  The nodes of a flat node list (by position) whose chain of parent IDs ends at a
  root: the nodes with \<open>Pid == 0\<close>, and the nodes whose \<open>Pid\<close> is the ID of such a
  node.
\<close>

inductive_set rooted :: "TreeNode list \<Rightarrow> nat set"
  for nodes :: "TreeNode list" where
  root: "a < length nodes \<Longrightarrow> Pid (nodes ! a) = 0 \<Longrightarrow> a \<in> rooted nodes"
| under: "b \<in> rooted nodes \<Longrightarrow> a < length nodes \<Longrightarrow> Pid (nodes ! a) \<noteq> 0 \<Longrightarrow>
          Pid (nodes ! a) = ID (nodes ! b) \<Longrightarrow> a \<in> rooted nodes"

section \<open>Descendant Resolver\<close>

text \<open>The loop that fills \<open>nodeMap\<close> (by ID, a later node replaces an earlier one) and
  \<open>childrenMap\<close> (by parent ID, in the order of the list).\<close>

definition indexNode ::
  "TreeNode \<Rightarrow> (go_int \<rightharpoonup> TreeNode) \<times> (go_int \<rightharpoonup> TreeNode list)
            \<Rightarrow> (go_int \<rightharpoonup> TreeNode) \<times> (go_int \<rightharpoonup> TreeNode list)" where
  "indexNode node st =
     (case st of (nodeMap, childrenMap) \<Rightarrow>
        (nodeMap(ID node \<mapsto> node),
         childrenMap(Pid node \<mapsto> sliceAt childrenMap (Pid node) @ [node])))"

text \<open>
  The closure \<open>dfs\<close>. It recurses without a bound, so the model carries fuel (the depth
  of recursion still allowed): \<open>None\<close> is a traversal that does not return within that
  depth. \<open>idMp\<close>, the set the closure writes to, is passed through.
\<close>

fun dfs ::
  "nat \<Rightarrow> (go_int \<rightharpoonup> TreeNode) \<Rightarrow> (go_int \<rightharpoonup> TreeNode list) \<Rightarrow> go_int
       \<Rightarrow> go_int set \<Rightarrow> go_int set option" where
  "dfs 0 nodeMap childrenMap nodeId idMp = None"
| "dfs (Suc fuel) nodeMap childrenMap nodeId idMp =
     (case nodeMap nodeId of
        None \<Rightarrow> Some idMp
      | Some node \<Rightarrow>
          if IsLeaf node = 1 then Some (insert (ID node) idMp)
          else fold (\<lambda>child acc. case acc of
                                    None \<Rightarrow> None
                                  | Some idMp' \<Rightarrow> dfs fuel nodeMap childrenMap (ID child) idMp')
                 (sliceAt childrenMap nodeId) (Some idMp))"

text \<open>
  \<open>getChildrenTreeNodeIds\<close>. When the store fails the function returns the nil map,
  which reads as the empty set.
\<close>

definition getChildrenTreeNodeIds ::
  "nat \<Rightarrow> treeService \<Rightarrow> db \<Rightarrow> go_int \<Rightarrow> go_int set option" where
  "getChildrenTreeNodeIds fuel ts s nid =
     (case nodeDao_GetAllNoPreload (nodeDao ts) s of
        Inl err \<Rightarrow> Some {}
      | Inr nodes \<Rightarrow>
          (case fold indexNode nodes (Map.empty, Map.empty) of
             (nodeMap, childrenMap) \<Rightarrow> dfs fuel nodeMap childrenMap nid {}))"

section \<open>Scoped resource aggregation\<close>

text \<open>The inner loop over \<open>e.BindNodes\<close>, left at the first bound node in the set.\<close>

fun anyBound :: "go_int set \<Rightarrow> go_int list \<Rightarrow> bool" where
  "anyBound nodeIdsMap [] = False"
| "anyBound nodeIdsMap (n # ns) = (if n \<in> nodeIdsMap then True else anyBound nodeIdsMap ns)"

fun boundLoop :: "go_int set \<Rightarrow> Resource list \<Rightarrow> ResourceTree list \<Rightarrow> ResourceTree list" where
  "boundLoop nodeIdsMap [] resources = resources"
| "boundLoop nodeIdsMap (e # es) resources =
     (if anyBound nodeIdsMap (BindNodes e) then boundLoop nodeIdsMap es (resources @ [Tree e])
      else boundLoop nodeIdsMap es resources)"

text \<open>The \<open>switch\<close> on the resource type; an unknown type leaves \<open>resources\<close> empty.\<close>

definition collectResources ::
  "treeService \<Rightarrow> db \<Rightarrow> go_int set \<Rightarrow> string \<Rightarrow> error + ResourceTree list" where
  "collectResources ts s nodeIdsMap resourceType =
     (if resourceType = ''ecs'' then
        (case resDao_GetAll (ecsDao ts) s of
           Inl err \<Rightarrow> Inl err
         | Inr ecs \<Rightarrow> Inr (boundLoop nodeIdsMap ecs []))
      else if resourceType = ''elb'' then
        (case resDao_GetAll (elbDao ts) s of
           Inl err \<Rightarrow> Inl err
         | Inr elb \<Rightarrow> Inr (boundLoop nodeIdsMap elb []))
      else if resourceType = ''rds'' then
        (case resDao_GetAll (rdsDao ts) s of
           Inl err \<Rightarrow> Inl err
         | Inr rds \<Rightarrow> Inr (boundLoop nodeIdsMap rds []))
      else Inr [])"

text \<open>
  The pagination at the end of \<open>GetAllResourcesByType\<close>: \<open>offset\<close> and \<open>end\<close> are Go
  \<open>int\<close>s, and the slice expression \<open>resources[offset:end]\<close> panics unless
  \<open>0 <= offset <= end\<close> (\<open>end\<close> is at most the length after the clamp).
\<close>

definition paginate :: "'a list \<Rightarrow> go_int \<Rightarrow> go_int \<Rightarrow> error + 'a list" where
  "paginate resources page size' =
     (let offset = (page - 1) * size' in
      if int (length resources) \<le> sint offset then Inr []
      else
        let endIdx = (if int (length resources) < sint (offset + size')
                      then int (length resources) else sint (offset + size'))
        in if sint offset < 0 \<or> endIdx < sint offset then Inl PanicSliceBounds
           else Inr (take (nat endIdx - nat (sint offset)) (drop (nat (sint offset)) resources)))"

definition GetAllResourcesByType ::
  "nat \<Rightarrow> treeService \<Rightarrow> db \<Rightarrow> go_int \<Rightarrow> string \<Rightarrow> go_int \<Rightarrow> go_int
       \<Rightarrow> (error + ResourceTree list) option" where
  "GetAllResourcesByType fuel ts s nid resourceType page size' =
     (case getChildrenTreeNodeIds fuel ts s nid of
        None \<Rightarrow> None
      | Some nodeIdsMap \<Rightarrow>
          Some (case collectResources ts s nodeIdsMap resourceType of
                  Inl err \<Rightarrow> Inl err
                | Inr resources \<Rightarrow> paginate resources page size'))"

section \<open>Reference notions of the specification\<close>

text \<open>
  The subtree rooted at the node with ID \<open>r\<close>: that node, and every node whose parent
  is in the subtree. The descendant leaf set is the set of IDs of the leaves in it.
\<close>

inductive_set subtree :: "TreeNode list \<Rightarrow> go_int \<Rightarrow> TreeNode set"
  for nodes :: "TreeNode list" and r :: go_int where
  root: "n \<in> set nodes \<Longrightarrow> ID n = r \<Longrightarrow> n \<in> subtree nodes r"
| child: "p \<in> subtree nodes r \<Longrightarrow> c \<in> set nodes \<Longrightarrow> Pid c = ID p \<Longrightarrow> c \<in> subtree nodes r"

definition leafIds :: "TreeNode list \<Rightarrow> go_int \<Rightarrow> go_int set" where
  "leafIds nodes r = {ID n | n. n \<in> subtree nodes r \<and> IsLeaf n = 1}"

text \<open>
  Well-formed node sets: IDs are unique (so the one \<open>Pid\<close> of a node names one parent),
  the parent links have no cycle, and a leaf is nobody's parent.
\<close>

definition parentEdges :: "TreeNode list \<Rightarrow> (go_int \<times> go_int) set" where
  "parentEdges nodes = {(ID c, Pid c) | c. c \<in> set nodes \<and> Pid c \<in> ID ` set nodes}"

definition wellFormed :: "TreeNode list \<Rightarrow> bool" where
  "wellFormed nodes \<longleftrightarrow>
     distinct (map ID nodes) \<and> acyclic (parentEdges nodes) \<and>
     (\<forall>p \<in> set nodes. IsLeaf p = 1 \<longrightarrow> (\<forall>c \<in> set nodes. Pid c \<noteq> ID p))"

section \<open>Example data\<close>

definition mkNode :: "go_int \<Rightarrow> go_int \<Rightarrow> go_int \<Rightarrow> go_int \<Rightarrow> TreeNode" where
  "mkNode i p l leaf =
     \<lparr>ID = i, Pid = p, Level = l, IsLeaf = leaf, Key = [], Value = 0, Children = [], BindEcs = []\<rparr>"

text \<open>The node set of the specification's example: a root with two leaves.\<close>

definition exNodes :: "TreeNode list" where
  "exNodes = [mkNode 1 0 1 0, mkNode 2 1 2 1, mkNode 3 1 2 1]"

definition exDb :: db where
  "exDb = \<lparr>node_rows = exNodes, ecs_rows = [], elb_rows = [], rds_rows = []\<rparr>"

text \<open>The service over the stores of the specification.\<close>

definition exService :: treeService where
  "exService =
     \<lparr>ecsDao = memEcsDao, elbDao = memElbDao, rdsDao = memRdsDao, nodeDao = memNodeDao False\<rparr>"

text \<open>A parent whose level is two below the largest \<open>int\<close>.\<close>

definition exDeepDb :: db where
  "exDeepDb =
     \<lparr>node_rows = [mkNode 1 0 0x7FFFFFFFFFFFFFFE 0], ecs_rows = [], elb_rows = [], rds_rows = []\<rparr>"

text \<open>A non-leaf node with a bound ECS resource and a leaf with none.\<close>

definition exBindDb :: db where
  "exBindDb =
     \<lparr>node_rows = [(mkNode 1 0 1 0)\<lparr>BindEcs := [7]\<rparr>, mkNode 2 1 2 1],
      ecs_rows = [], elb_rows = [], rds_rows = []\<rparr>"

text \<open>
  The resources of the specification's example, and two more: \<open>E1\<close> (ID 1) is bound
  to node 2, the resource with ID 2 to no node, the resource with ID 3 to node 3.
\<close>

definition mkRes :: "go_int \<Rightarrow> go_int list \<Rightarrow> Resource" where
  "mkRes i bound =
     \<lparr>Tree = \<lparr>ResID = i, InstanceName = [], IpAddr = [], Hash = []\<rparr>, BindNodes = bound\<rparr>"

definition exEcsDb :: db where
  "exEcsDb =
     \<lparr>node_rows = exNodes, ecs_rows = [mkRes 1 [2], mkRes 2 [], mkRes 3 [3]],
      elb_rows = [], rds_rows = []\<rparr>"

text \<open>Two non-leaf nodes that are each other's parent.\<close>

definition exCycleDb :: db where
  "exCycleDb =
     \<lparr>node_rows = [mkNode 1 2 2 0, mkNode 2 1 2 0], ecs_rows = [], elb_rows = [], rds_rows = []\<rparr>"

text \<open>A single root that is not a leaf and has no children.\<close>

definition exLoneDb :: db where
  "exLoneDb = \<lparr>node_rows = [mkNode 1 0 1 0], ecs_rows = [], elb_rows = [], rds_rows = []\<rparr>"

text \<open>
  A root, a node (ID 5) whose parent ID 9 names no node, and a node (ID 6) under that
  node.
\<close>

definition exOrphanDb :: db where
  "exOrphanDb =
     \<lparr>node_rows = [mkNode 1 0 1 0, mkNode 5 9 2 0, mkNode 6 5 3 1],
      ecs_rows = [], elb_rows = [], rds_rows = []\<rparr>"

text \<open>
  The forests \<open>ListTreeNodes\<close> returns on the example of the specification and on
  the node set with the dangling parent ID: the root list and the heap.
\<close>

definition exForest :: "nat list \<times> TreeNode list" where
  "exForest = ([0], [(mkNode 1 0 1 0)\<lparr>Key := ''1'', Children := [1, 2]\<rparr>,
                     (mkNode 2 1 2 1)\<lparr>Key := ''2''\<rparr>, (mkNode 3 1 2 1)\<lparr>Key := ''3''\<rparr>])"

definition exOrphanForest :: "nat list \<times> TreeNode list" where
  "exOrphanForest = ([0], [(mkNode 1 0 1 0)\<lparr>Key := ''1''\<rparr>,
                           (mkNode 5 9 2 0)\<lparr>Key := ''5'', Children := [2]\<rparr>,
                           (mkNode 6 5 3 1)\<lparr>Key := ''6''\<rparr>])"

text \<open>A node store whose \<open>GetAllNoPreload\<close> fails, and the service over it.\<close>

definition failingNodeDao :: TreeNodeDAO where
  "failingNodeDao = (memNodeDao False)\<lparr>nodeDao_GetAllNoPreload := (\<lambda>s. Inl (ErrStore 1))\<rparr>"

definition exFailService :: treeService where
  "exFailService = exService\<lparr>nodeDao := failingNodeDao\<rparr>"

text \<open>
  What the first loop of \<open>ListTreeNodes\<close> keeps of every node: its place in the heap,
  its ID, its parent ID and its children.
\<close>

definition sameLinks :: "TreeNode list \<Rightarrow> TreeNode list \<Rightarrow> bool" where
  "sameLinks heap nodes \<longleftrightarrow>
     length heap = length nodes \<and>
     (\<forall>a < length nodes. ID (heap ! a) = ID (nodes ! a) \<and> Pid (heap ! a) = Pid (nodes ! a)
                          \<and> Children (heap ! a) = Children (nodes ! a))"

section \<open>Properties of the node lifecycle\<close>

lemma leafLoop_filter: "leafLoop nodes acc = acc @ filter (\<lambda>n. BindEcs n \<noteq> []) nodes"
  by (induction nodes arbitrary: acc) auto

text \<open>
  Claim C10. \<open>ListLeafTreeNodes\<close> returns, in the order of the store, exactly the nodes
  whose \<open>BindEcs\<close> list is not empty. Neither \<open>IsLeaf\<close> nor the children are read: the
  selection is the filter below, which mentions \<open>BindEcs\<close> only.
\<close>

theorem ListLeafTreeNodes_selects_bound:
  "nodeDao_GetAll (nodeDao ts) s = Inr nodes \<Longrightarrow>
   ListLeafTreeNodes ts s = Inr (filter (\<lambda>n. BindEcs n \<noteq> []) nodes)"
  by (simp add: ListLeafTreeNodes_def leafLoop_filter)

text \<open>The non-leaf node with a bound resource is listed, the leaf without one is not.\<close>

theorem ListLeafTreeNodes_selects_bound_witness:
  "nodeDao_GetAll (nodeDao exService) exBindDb
     = Inr [(mkNode 1 0 1 0)\<lparr>BindEcs := [7]\<rparr>, mkNode 2 1 2 1] \<and>
   IsLeaf ((mkNode 1 0 1 0)\<lparr>BindEcs := [7]\<rparr>) = 0 \<and> IsLeaf (mkNode 2 1 2 1) = 1 \<and>
   ListLeafTreeNodes exService exBindDb = Inr [(mkNode 1 0 1 0)\<lparr>BindEcs := [7]\<rparr>]"
proof -
  have g: "nodeDao_GetAll (nodeDao exService) exBindDb
             = Inr [(mkNode 1 0 1 0)\<lparr>BindEcs := [7]\<rparr>, mkNode 2 1 2 1]"
    by (simp add: exService_def exBindDb_def memNodeDao_def)
  show ?thesis
    using g ListLeafTreeNodes_selects_bound [OF g] by (simp add: mkNode_def)
qed

lemma sint_add2_no_wrap:
  fixes x :: go_int
  assumes "sint x \<le> 2 ^ 63 - 3"
  shows "sint (x + 2) = sint x + 2"
proof -
  have lo: "- (2 ^ 63) \<le> sint x" using sint_ge [of x] by simp
  have "sint (x + 2) = signed_take_bit 63 (sint x + sint (2 :: go_int))"
    by (simp add: sint_word_ariths)
  also have "\<dots> = signed_take_bit 63 (sint x + 2)" by simp
  also have "\<dots> = sint x + 2"
    using assms lo by (intro signed_take_bit_int_eq_self) simp_all
  finally show ?thesis .
qed

text \<open>
  Claim C5, as amended. For a create request that is not the root shortcut
  (\<open>Pid == 0\<close> and \<open>Level == 1\<close>), whose parent the store returns and is not a leaf,
  and whose parent's level is at most \<open>2^63 - 3\<close> (so that \<open>node.Level+2\<close> does not
  wrap around): a level above \<open>parent.Level + 1\<close> is refused with the level-exceeded
  error and the store is left as it was; every level up to and including
  \<open>parent.Level + 1\<close> passes the check, and the outcome is that of the store's
  \<open>Create\<close>.
\<close>

theorem CreateTreeNode_level_check:
  assumes "\<not> (Pid obj = 0 \<and> Level obj = 1)"
    and "nodeDao_GetByID (nodeDao ts) s (Pid obj) = Inr (Some parent)"
    and "IsLeaf parent \<noteq> 1"
    and "sint (Level parent) \<le> 2 ^ 63 - 3"
  shows "(sint (Level parent) + 1 < sint (Level obj) \<longrightarrow>
            CreateTreeNode ts s obj = (Some ErrLevelExceeded, s)) \<and>
         (sint (Level obj) \<le> sint (Level parent) + 1 \<longrightarrow>
            CreateTreeNode ts s obj = nodeDao_Create (nodeDao ts) s obj)"
  using assms by (auto simp: CreateTreeNode_def sint_add2_no_wrap)

text \<open>Under the root of the example (level 1): level 3 is refused, level 2 is created.\<close>

theorem CreateTreeNode_level_check_witness:
  "CreateTreeNode exService exDb (mkNode 4 1 3 0) = (Some ErrLevelExceeded, exDb) \<and>
   CreateTreeNode exService exDb (mkNode 4 1 2 0)
     = (None, exDb\<lparr>node_rows := exNodes @ [mkNode 4 1 2 0]\<rparr>)"
proof -
  have a: "\<not> (Pid (mkNode 4 1 3 0) = 0 \<and> Level (mkNode 4 1 3 0) = 1)"
    by (simp add: mkNode_def)
  have b: "nodeDao_GetByID (nodeDao exService) exDb (Pid (mkNode 4 1 3 0))
             = Inr (Some (mkNode 1 0 1 0))"
    by (simp add: exService_def exDb_def exNodes_def memNodeDao_def mkNode_def)
  have c: "IsLeaf (mkNode 1 0 1 0) \<noteq> 1" by (simp add: mkNode_def)
  have d: "sint (Level (mkNode 1 0 1 0)) \<le> 2 ^ 63 - 3" by (simp add: mkNode_def)
  have a': "\<not> (Pid (mkNode 4 1 2 0) = 0 \<and> Level (mkNode 4 1 2 0) = 1)"
    by (simp add: mkNode_def)
  have b': "nodeDao_GetByID (nodeDao exService) exDb (Pid (mkNode 4 1 2 0))
              = Inr (Some (mkNode 1 0 1 0))"
    by (simp add: exService_def exDb_def exNodes_def memNodeDao_def mkNode_def)
  have e: "nodeDao_Create (nodeDao exService) exDb (mkNode 4 1 2 0)
             = (None, exDb\<lparr>node_rows := exNodes @ [mkNode 4 1 2 0]\<rparr>)"
    by (simp add: exService_def exDb_def memNodeDao_def)
  from CreateTreeNode_level_check [OF a b c d] CreateTreeNode_level_check [OF a' b' c d] e
  show ?thesis by (simp add: mkNode_def)
qed

text \<open>
  Claim C5 as stated fails where the sum wraps around: under a non-leaf parent of
  level \<open>2^63 - 2\<close> the sum \<open>node.Level+2\<close> is the smallest \<open>int\<close>, and a request at
  level 2, far below \<open>parent.Level + 1\<close>, is refused with the level-exceeded error.
\<close>

theorem CreateTreeNode_level_overflow_counterexample:
  "\<not> (Pid (mkNode 2 1 2 1) = 0 \<and> Level (mkNode 2 1 2 1) = 1) \<and>
   nodeDao_GetByID (nodeDao exService) exDeepDb (Pid (mkNode 2 1 2 1))
     = Inr (Some (mkNode 1 0 0x7FFFFFFFFFFFFFFE 0)) \<and>
   IsLeaf (mkNode 1 0 0x7FFFFFFFFFFFFFFE 0) \<noteq> 1 \<and>
   sint (Level (mkNode 2 1 2 1)) \<le> sint (Level (mkNode 1 0 0x7FFFFFFFFFFFFFFE 0)) + 1 \<and>
   CreateTreeNode exService exDeepDb (mkNode 2 1 2 1) = (Some ErrLevelExceeded, exDeepDb)"
  by (simp add: CreateTreeNode_def exService_def exDeepDb_def memNodeDao_def mkNode_def)

lemma find_list_ex:
  "list_ex P xs \<Longrightarrow> \<exists>x. find P xs = Some x \<and> P x \<and> x \<in> set xs"
  by (induction xs) auto

lemma find_not_list_ex: "\<not> list_ex P xs \<Longrightarrow> find P xs = None"
  by (induction xs) auto

lemma memNodeDao_GetByID_found:
  assumes "list_ex (\<lambda>n. ID n = i) (node_rows s)"
  shows "\<exists>n. nodeDao_GetByID (memNodeDao b) s i = Inr (Some n) \<and> ID n = i \<and> n \<in> set (node_rows s)"
  using find_list_ex [OF assms] by (auto simp: memNodeDao_def)

lemma memNodeDao_GetByID_absent:
  assumes "\<not> list_ex (\<lambda>n. ID n = i) (node_rows s)"
  shows "nodeDao_GetByID (memNodeDao b) s i = (if b then Inr None else Inl ErrRecordNotFound)"
  using find_not_list_ex [OF assms] by (simp add: memNodeDao_def)

lemma memNodeDao_HasChildren:
  "nodeDao_HasChildren (memNodeDao b) s i = Inr (list_ex (\<lambda>c. Pid c = i) (node_rows s))"
  by (simp add: memNodeDao_def)

lemma memNodeDao_Delete:
  "nodeDao_Delete (memNodeDao b) s i
     = (None, s\<lparr>node_rows := filter (\<lambda>n. ID n \<noteq> i) (node_rows s)\<rparr>)"
  by (simp add: memNodeDao_def)

text \<open>
  Claim C6. Over the node store of the specification (either convention for an absent
  row): deleting an existing node that has a child fails with the has-children error
  and leaves the store as it was; deleting an existing node without children succeeds
  and the store afterwards holds every node but that one; deleting an absent ID fails
  with a not-found error (the service's own, or the store's) and changes nothing.
\<close>

theorem DeleteTreeNode_guard:
  assumes "nodeDao ts = memNodeDao nilAbsent"
  shows "(list_ex (\<lambda>n. ID n = i) (node_rows s) \<and> list_ex (\<lambda>c. Pid c = i) (node_rows s) \<longrightarrow>
            DeleteTreeNode ts s i = (Some ErrTreeNodeHasChildren, s)) \<and>
         (list_ex (\<lambda>n. ID n = i) (node_rows s) \<and> \<not> list_ex (\<lambda>c. Pid c = i) (node_rows s) \<longrightarrow>
            DeleteTreeNode ts s i
              = (None, s\<lparr>node_rows := filter (\<lambda>n. ID n \<noteq> i) (node_rows s)\<rparr>)) \<and>
         (\<not> list_ex (\<lambda>n. ID n = i) (node_rows s) \<longrightarrow>
            DeleteTreeNode ts s i
              = (Some (if nilAbsent then ErrNodeNotExist else ErrRecordNotFound), s))"
proof (intro conjI impI)
  assume a: "list_ex (\<lambda>n. ID n = i) (node_rows s) \<and> list_ex (\<lambda>c. Pid c = i) (node_rows s)"
  then obtain n where "nodeDao_GetByID (memNodeDao nilAbsent) s i = Inr (Some n)"
    using memNodeDao_GetByID_found by blast
  with a show "DeleteTreeNode ts s i = (Some ErrTreeNodeHasChildren, s)"
    by (simp add: DeleteTreeNode_def assms memNodeDao_HasChildren)
next
  assume a: "list_ex (\<lambda>n. ID n = i) (node_rows s) \<and> \<not> list_ex (\<lambda>c. Pid c = i) (node_rows s)"
  then obtain n where "nodeDao_GetByID (memNodeDao nilAbsent) s i = Inr (Some n)"
    using memNodeDao_GetByID_found by blast
  with a show "DeleteTreeNode ts s i
                 = (None, s\<lparr>node_rows := filter (\<lambda>n. ID n \<noteq> i) (node_rows s)\<rparr>)"
    by (simp add: DeleteTreeNode_def assms memNodeDao_HasChildren memNodeDao_Delete)
next
  assume "\<not> list_ex (\<lambda>n. ID n = i) (node_rows s)"
  then show "DeleteTreeNode ts s i
               = (Some (if nilAbsent then ErrNodeNotExist else ErrRecordNotFound), s)"
    by (simp add: DeleteTreeNode_def assms memNodeDao_GetByID_absent)
qed

text \<open>
  In the example: the root (ID 1) has children and stays, the leaf with ID 2 is
  removed, ID 9 is absent.
\<close>

theorem DeleteTreeNode_guard_witness:
  "nodeDao exService = memNodeDao False \<and>
   DeleteTreeNode exService exDb 1 = (Some ErrTreeNodeHasChildren, exDb) \<and>
   DeleteTreeNode exService exDb 2
     = (None, exDb\<lparr>node_rows := [mkNode 1 0 1 0, mkNode 3 1 2 1]\<rparr>) \<and>
   DeleteTreeNode exService exDb 9 = (Some ErrRecordNotFound, exDb)"
proof -
  have d: "nodeDao exService = memNodeDao False" by (simp add: exService_def)
  have r: "node_rows exDb = [mkNode 1 0 1 0, mkNode 2 1 2 1, mkNode 3 1 2 1]"
    by (simp add: exDb_def exNodes_def)
  show ?thesis
    using d DeleteTreeNode_guard [OF d, of 1 exDb] DeleteTreeNode_guard [OF d, of 2 exDb]
      DeleteTreeNode_guard [OF d, of 9 exDb]
    by (simp add: r mkNode_def)
qed

lemma memEcsDao_GetByID_absent:
  assumes "\<not> list_ex (\<lambda>r. ResID (Tree r) = i) (ecs_rows s)"
  shows "resDao_GetByID memEcsDao s i = Inl ErrResourceNotFound"
  using find_not_list_ex [OF assms] by (simp add: memEcsDao_def)

lemma memEcsDao_Delete:
  "resDao_Delete memEcsDao s i
     = (None, s\<lparr>ecs_rows := filter (\<lambda>r. ResID (Tree r) \<noteq> i) (ecs_rows s)\<rparr>)"
  by (simp add: memEcsDao_def)

text \<open>
  Claim C7. Over the ECS store of the specification: deleting a resource the store
  returns with at least one bound node fails with \<open>ErrResourceBound\<close>, the store is
  unchanged and still returns the resource; deleting a resource the store returns with
  no bound node succeeds and the store no longer has it; deleting an absent ID fails
  with an error that wraps the not-found sentinel, and changes nothing.
\<close>

theorem DeleteEcsResource_guard:
  assumes "ecsDao ts = memEcsDao"
  shows "(resDao_GetByID (ecsDao ts) s i = Inr (Some r) \<and> BindNodes r \<noteq> [] \<longrightarrow>
            DeleteEcsResource ts s i = (Some ErrResourceBound, s) \<and>
            resDao_GetByID (ecsDao ts) (snd (DeleteEcsResource ts s i)) i = Inr (Some r)) \<and>
         (resDao_GetByID (ecsDao ts) s i = Inr (Some r) \<and> BindNodes r = [] \<longrightarrow>
            DeleteEcsResource ts s i
              = (None, s\<lparr>ecs_rows := filter (\<lambda>r. ResID (Tree r) \<noteq> i) (ecs_rows s)\<rparr>) \<and>
            resDao_GetByID (ecsDao ts) (snd (DeleteEcsResource ts s i)) i
              = Inl ErrResourceNotFound) \<and>
         (\<not> list_ex (\<lambda>r. ResID (Tree r) = i) (ecs_rows s) \<longrightarrow>
            DeleteEcsResource ts s i
              = (Some (ErrWrap MsgResourceNotFound ErrResourceNotFound), s))"
proof (intro conjI impI)
  assume a: "resDao_GetByID (ecsDao ts) s i = Inr (Some r) \<and> BindNodes r \<noteq> []"
  then show "DeleteEcsResource ts s i = (Some ErrResourceBound, s)"
    by (simp add: DeleteEcsResource_def)
  with a show "resDao_GetByID (ecsDao ts) (snd (DeleteEcsResource ts s i)) i = Inr (Some r)"
    by simp
next
  assume a: "resDao_GetByID (ecsDao ts) s i = Inr (Some r) \<and> BindNodes r = []"
  then show d: "DeleteEcsResource ts s i
              = (None, s\<lparr>ecs_rows := filter (\<lambda>r. ResID (Tree r) \<noteq> i) (ecs_rows s)\<rparr>)"
    by (simp add: DeleteEcsResource_def assms memEcsDao_Delete)
  have "\<not> list_ex (\<lambda>r. ResID (Tree r) = i) (filter (\<lambda>r. ResID (Tree r) \<noteq> i) (ecs_rows s))"
    by (simp add: list_ex_iff)
  then show "resDao_GetByID (ecsDao ts) (snd (DeleteEcsResource ts s i)) i
               = Inl ErrResourceNotFound"
    using memEcsDao_GetByID_absent
            [of i "s\<lparr>ecs_rows := filter (\<lambda>r. ResID (Tree r) \<noteq> i) (ecs_rows s)\<rparr>"]
    by (simp add: d assms)
next
  assume "\<not> list_ex (\<lambda>r. ResID (Tree r) = i) (ecs_rows s)"
  then show "DeleteEcsResource ts s i
               = (Some (ErrWrap MsgResourceNotFound ErrResourceNotFound), s)"
    by (simp add: DeleteEcsResource_def assms memEcsDao_GetByID_absent)
qed

text \<open>
  In the example: \<open>E1\<close> (ID 1, bound to node 2) is kept, the unbound resource with
  ID 2 is deleted, ID 9 is absent.
\<close>

theorem DeleteEcsResource_guard_witness:
  "ecsDao exService = memEcsDao \<and>
   DeleteEcsResource exService exEcsDb 1 = (Some ErrResourceBound, exEcsDb) \<and>
   resDao_GetByID (ecsDao exService) exEcsDb 1 = Inr (Some (mkRes 1 [2])) \<and>
   DeleteEcsResource exService exEcsDb 2
     = (None, exEcsDb\<lparr>ecs_rows := [mkRes 1 [2], mkRes 3 [3]]\<rparr>) \<and>
   DeleteEcsResource exService exEcsDb 9
     = (Some (ErrWrap MsgResourceNotFound ErrResourceNotFound), exEcsDb)"
proof -
  have d: "ecsDao exService = memEcsDao" by (simp add: exService_def)
  have r: "ecs_rows exEcsDb = [mkRes 1 [2], mkRes 2 [], mkRes 3 [3]]" by (simp add: exEcsDb_def)
  have g1: "resDao_GetByID (ecsDao exService) exEcsDb 1 = Inr (Some (mkRes 1 [2]))"
    by (simp add: d memEcsDao_def r mkRes_def)
  have g2: "resDao_GetByID (ecsDao exService) exEcsDb 2 = Inr (Some (mkRes 2 []))"
    by (simp add: d memEcsDao_def r mkRes_def)
  show ?thesis
    using d g1 g2 DeleteEcsResource_guard [OF d, of exEcsDb 1 "mkRes 1 [2]"]
      DeleteEcsResource_guard [OF d, of exEcsDb 2 "mkRes 2 []"]
      DeleteEcsResource_guard [OF d, of exEcsDb 9 "mkRes 9 []"]
    by (simp add: r mkRes_def)
qed

section \<open>Properties of the Descendant Resolver\<close>

lemma fold_indexNode_Cons:
  "fold indexNode (x # xs) (nm0, cm0)
     = fold indexNode xs (nm0(ID x \<mapsto> x), cm0(Pid x \<mapsto> sliceAt cm0 (Pid x) @ [x]))"
proof -
  have "indexNode x (nm0, cm0) = (nm0(ID x \<mapsto> x), cm0(Pid x \<mapsto> sliceAt cm0 (Pid x) @ [x]))"
    by (simp add: indexNode_def)
  then show ?thesis by (simp only: fold_simps)
qed

lemma indexNode_nodeMap_Some:
  "fst (fold indexNode nodes (nm0, cm0)) i = Some n \<Longrightarrow>
     (n \<in> set nodes \<and> ID n = i) \<or> nm0 i = Some n"
proof (induction nodes arbitrary: nm0 cm0)
  case Nil
  then show ?case by simp
next
  case (Cons x xs)
  from Cons.prems
  have "fst (fold indexNode xs (nm0(ID x \<mapsto> x), cm0(Pid x \<mapsto> sliceAt cm0 (Pid x) @ [x]))) i = Some n"
    by (simp only: fold_indexNode_Cons)
  from Cons.IH [OF this] show ?case by (auto split: if_splits)
qed

lemma indexNode_nodeMap_dom:
  "i \<in> ID ` set nodes \<or> nm0 i \<noteq> None \<Longrightarrow> fst (fold indexNode nodes (nm0, cm0)) i \<noteq> None"
proof (induction nodes arbitrary: nm0 cm0)
  case Nil
  then show ?case by simp
next
  case (Cons x xs)
  have "i \<in> ID ` set xs \<or> (nm0(ID x \<mapsto> x)) i \<noteq> None"
    using Cons.prems by auto
  then have "fst (fold indexNode xs (nm0(ID x \<mapsto> x), cm0(Pid x \<mapsto> sliceAt cm0 (Pid x) @ [x]))) i \<noteq> None"
    by (rule Cons.IH)
  then show ?case unfolding fold_indexNode_Cons .
qed

lemma indexNode_childrenMap:
  "sliceAt (snd (fold indexNode nodes (nm0, cm0))) p = sliceAt cm0 p @ filter (\<lambda>n. Pid n = p) nodes"
proof (induction nodes arbitrary: nm0 cm0)
  case Nil
  then show ?case by simp
next
  case (Cons x xs)
  have "sliceAt (cm0(Pid x \<mapsto> sliceAt cm0 (Pid x) @ [x])) p
          = sliceAt cm0 p @ (if Pid x = p then [x] else [])"
    by (simp add: sliceAt_def)
  then show ?case
    unfolding fold_indexNode_Cons Cons.IH by simp
qed

lemma nodeMap_Some:
  assumes "fold indexNode nodes (Map.empty, Map.empty) = (nm, cm)" and "nm i = Some n"
  shows "n \<in> set nodes \<and> ID n = i"
  using indexNode_nodeMap_Some [of nodes Map.empty Map.empty i n] assms by simp

lemma nodeMap_None:
  assumes "fold indexNode nodes (Map.empty, Map.empty) = (nm, cm)"
  shows "nm i = None \<longleftrightarrow> i \<notin> ID ` set nodes"
proof
  assume "nm i = None"
  then show "i \<notin> ID ` set nodes"
    using indexNode_nodeMap_dom [of i nodes Map.empty Map.empty] assms by auto
next
  assume a: "i \<notin> ID ` set nodes"
  show "nm i = None"
  proof (rule ccontr)
    assume "nm i \<noteq> None"
    then obtain n where "nm i = Some n" by auto
    from nodeMap_Some [OF assms this] a show False by auto
  qed
qed

lemma childrenMap_slice:
  assumes "fold indexNode nodes (Map.empty, Map.empty) = (nm, cm)"
  shows "sliceAt cm p = filter (\<lambda>n. Pid n = p) nodes"
  using indexNode_childrenMap [of nodes Map.empty Map.empty p] assms by (simp add: sliceAt_def)

lemma subtree_root_present: "x \<in> subtree nodes r \<Longrightarrow> r \<in> ID ` set nodes"
  by (induction rule: subtree.induct) auto

lemma leafIds_absent: "r \<notin> ID ` set nodes \<Longrightarrow> leafIds nodes r = {}"
  using subtree_root_present by (fastforce simp: leafIds_def)

lemma distinct_ID_eq:
  "distinct (map ID nodes) \<Longrightarrow> x \<in> set nodes \<Longrightarrow> y \<in> set nodes \<Longrightarrow> ID x = ID y \<Longrightarrow> x = y"
  by (meson distinct_map inj_onD)

lemma subtree_leaf:
  assumes d: "distinct (map ID nodes)"
    and l: "\<forall>c \<in> set nodes. Pid c \<noteq> ID n"
    and n: "n \<in> set nodes"
  shows "subtree nodes (ID n) = {n}"
proof -
  have "x = n" if "x \<in> subtree nodes (ID n)" for x
    using that
  proof (induction rule: subtree.induct)
    case (root x)
    then show ?case using distinct_ID_eq [OF d _ n] by simp
  next
    case (child p c)
    then show ?case using l by auto
  qed
  moreover have "n \<in> subtree nodes (ID n)" using n refl by (rule subtree.root)
  ultimately show ?thesis by auto
qed

lemma subtree_unfold:
  assumes d: "distinct (map ID nodes)" and n: "n \<in> set nodes"
  shows "subtree nodes (ID n)
           = insert n (\<Union>c \<in> {c \<in> set nodes. Pid c = ID n}. subtree nodes (ID c))"
    (is "?L = ?R")
proof (intro set_eqI iffI)
  fix x assume "x \<in> ?L"
  then show "x \<in> ?R"
  proof (induction rule: subtree.induct)
    case (root x)
    then show ?case using distinct_ID_eq [OF d _ n] by simp
  next
    case (child p c)
    show ?case
    proof (cases "p = n")
      case True
      with child have "c \<in> {c \<in> set nodes. Pid c = ID n}" by simp
      moreover have "c \<in> subtree nodes (ID c)" using child(2) refl by (rule subtree.root)
      ultimately show ?thesis by blast
    next
      case False
      with child obtain c' where c': "c' \<in> set nodes" "Pid c' = ID n" "p \<in> subtree nodes (ID c')"
        by auto
      from c'(3) child(2,3) have "c \<in> subtree nodes (ID c')" by (rule subtree.child)
      with c' show ?thesis by blast
    qed
  qed
next
  fix x assume "x \<in> ?R"
  then consider "x = n" | c where "c \<in> set nodes" "Pid c = ID n" "x \<in> subtree nodes (ID c)"
    by auto
  then show "x \<in> ?L"
  proof cases
    case 1
    then show ?thesis using subtree.root [OF n refl] by simp
  next
    case 2
    have nr: "n \<in> subtree nodes (ID n)" using n refl by (rule subtree.root)
    from 2(3) show ?thesis
    proof (induction rule: subtree.induct)
      case (root y)
      then have "y = c" using distinct_ID_eq [OF d _ 2(1)] by simp
      then show ?case using subtree.child [OF nr 2(1,2)] by simp
    next
      case (child p y)
      from child(4) child(2,3) show ?case by (rule subtree.child)
    qed
  qed
qed

lemma leafIds_unfold:
  assumes d: "distinct (map ID nodes)" and n: "n \<in> set nodes" and nl: "IsLeaf n \<noteq> 1"
  shows "leafIds nodes (ID n) = (\<Union>c \<in> set (filter (\<lambda>c. Pid c = ID n) nodes). leafIds nodes (ID c))"
  unfolding leafIds_def subtree_unfold [OF d n] using nl by auto

lemma leafIds_leaf:
  assumes d: "distinct (map ID nodes)"
    and l: "\<forall>p \<in> set nodes. IsLeaf p = 1 \<longrightarrow> (\<forall>c \<in> set nodes. Pid c \<noteq> ID p)"
    and n: "n \<in> set nodes" and lf: "IsLeaf n = 1"
  shows "leafIds nodes (ID n) = {ID n}"
proof -
  have "\<forall>c \<in> set nodes. Pid c \<noteq> ID n" using l n lf by blast
  from subtree_leaf [OF d this n] lf show ?thesis by (simp add: leafIds_def)
qed

lemma finite_parentEdges: "finite (parentEdges nodes)"
proof -
  have "parentEdges nodes \<subseteq> (\<lambda>c. (ID c, Pid c)) ` set nodes"
    by (auto simp: parentEdges_def)
  then show ?thesis by (rule finite_subset) simp
qed

lemma dfs_absent:
  "nm i = None \<Longrightarrow> dfs (Suc k) nm cm i acc = Some acc"
  by simp

lemma dfs_leaf:
  "nm i = Some n \<Longrightarrow> IsLeaf n = 1 \<Longrightarrow> dfs (Suc k) nm cm i acc = Some (insert (ID n) acc)"
  by simp

lemma fold_dfs_bound:
  fixes f :: "nat \<Rightarrow> go_int \<Rightarrow> go_int set \<Rightarrow> go_int set option"
  assumes "\<forall>c \<in> set cs. \<exists>S K. (\<forall>k\<ge>K. \<forall>acc. f k (ID c) acc = Some (acc \<union> S)) \<and> (W \<longrightarrow> S = L (ID c))"
  shows "\<exists>S K. (\<forall>k\<ge>K. \<forall>acc.
                   fold (\<lambda>child a. case a of None \<Rightarrow> None | Some m \<Rightarrow> f k (ID child) m) cs (Some acc)
                     = Some (acc \<union> S)) \<and>
               (W \<longrightarrow> S = (\<Union>c \<in> set cs. L (ID c)))"
  using assms
proof (induction cs)
  case Nil
  have "\<forall>k\<ge>0::nat. \<forall>acc. fold (\<lambda>child a. case a of None \<Rightarrow> None | Some m \<Rightarrow> f k (ID child) m) [] (Some acc)
                     = Some (acc \<union> {})"
    by simp
  moreover have "W \<longrightarrow> {} = (\<Union>c \<in> set []. L (ID c))" by simp
  ultimately show ?case by blast
next
  case (Cons c cs)
  from Cons.prems
  have "\<exists>S K. (\<forall>k\<ge>K. \<forall>acc. f k (ID c) acc = Some (acc \<union> S)) \<and> (W \<longrightarrow> S = L (ID c))"
    by simp
  then obtain S1 K1 where
    c1: "\<forall>k\<ge>K1. \<forall>acc. f k (ID c) acc = Some (acc \<union> S1)" and w1: "W \<longrightarrow> S1 = L (ID c)"
    by blast
  from Cons.prems have "\<forall>c \<in> set cs. \<exists>S K. (\<forall>k\<ge>K. \<forall>acc. f k (ID c) acc = Some (acc \<union> S)) \<and> (W \<longrightarrow> S = L (ID c))"
    by simp
  from Cons.IH [OF this] obtain S2 K2 where
    c2: "\<forall>k\<ge>K2. \<forall>acc.
           fold (\<lambda>child a. case a of None \<Rightarrow> None | Some m \<Rightarrow> f k (ID child) m) cs (Some acc)
             = Some (acc \<union> S2)"
    and w2: "W \<longrightarrow> S2 = (\<Union>c \<in> set cs. L (ID c))"
    by blast
  have "\<forall>k\<ge>max K1 K2. \<forall>acc.
          fold (\<lambda>child a. case a of None \<Rightarrow> None | Some m \<Rightarrow> f k (ID child) m) (c # cs) (Some acc)
            = Some (acc \<union> (S1 \<union> S2))"
  proof (intro allI impI)
    fix k :: nat and acc :: "go_int set" assume k: "max K1 K2 \<le> k"
    then have "K1 \<le> k" and "K2 \<le> k" by simp_all
    with c1 c2 show "fold (\<lambda>child a. case a of None \<Rightarrow> None | Some m \<Rightarrow> f k (ID child) m) (c # cs) (Some acc)
            = Some (acc \<union> (S1 \<union> S2))"
      by (simp add: Un_assoc)
  qed
  moreover have "W \<longrightarrow> S1 \<union> S2 = (\<Union>c \<in> set (c # cs). L (ID c))"
    using w1 w2 by simp
  ultimately show ?case by blast
qed

lemma dfs_core:
  assumes ac: "acyclic (parentEdges nodes)"
    and ix: "fold indexNode nodes (Map.empty, Map.empty) = (nm, cm)"
  shows "\<exists>S K. (\<forall>k\<ge>K. \<forall>acc. dfs k nm cm i acc = Some (acc \<union> S)) \<and>
               (distinct (map ID nodes) \<and>
                (\<forall>p \<in> set nodes. IsLeaf p = 1 \<longrightarrow> (\<forall>c \<in> set nodes. Pid c \<noteq> ID p))
                \<longrightarrow> S = leafIds nodes i)"
proof -
  let ?wf = "distinct (map ID nodes) \<and>
                (\<forall>p \<in> set nodes. IsLeaf p = 1 \<longrightarrow> (\<forall>c \<in> set nodes. Pid c \<noteq> ID p))"
  have "wf (parentEdges nodes)"
    using finite_parentEdges ac by (rule finite_acyclic_wf)
  then show ?thesis
  proof (induction i rule: wf_induct_rule)
    case (less i)
    show ?case
    proof (cases "nm i")
      case None
      then have "\<forall>k\<ge>1. \<forall>acc. dfs k nm cm i acc = Some (acc \<union> {})"
        by (metis dfs_absent Suc_le_D One_nat_def sup_bot_right)
      moreover have "leafIds nodes i = {}"
        using None nodeMap_None [OF ix] leafIds_absent by blast
      ultimately show ?thesis by metis
    next
      case (Some n)
      from nodeMap_Some [OF ix Some] have n: "n \<in> set nodes" and idn: "ID n = i" by simp_all
      show ?thesis
      proof (cases "IsLeaf n = 1")
        case True
        have "\<forall>k\<ge>1. \<forall>acc. dfs k nm cm i acc = Some (acc \<union> {i})"
        proof (intro allI impI)
          fix k :: nat and acc assume "1 \<le> k"
          then obtain k' where "k = Suc k'" by (metis Suc_le_D One_nat_def)
          then show "dfs k nm cm i acc = Some (acc \<union> {i})"
            using dfs_leaf [where nm = nm and i = i, OF Some True] idn by simp
        qed
        moreover have "?wf \<longrightarrow> {i} = leafIds nodes i"
          using leafIds_leaf [of nodes n] n True idn by auto
        ultimately show ?thesis by blast
      next
        case False
        let ?cs = "filter (\<lambda>c. Pid c = i) nodes"
        have cs: "sliceAt cm i = ?cs" by (rule childrenMap_slice [OF ix])
        have edge: "(ID c, i) \<in> parentEdges nodes" if "c \<in> set ?cs" for c
          using that n idn by (auto simp: parentEdges_def)
        have "\<forall>c \<in> set ?cs. \<exists>S K. (\<forall>k\<ge>K. \<forall>acc. dfs k nm cm (ID c) acc = Some (acc \<union> S)) \<and>
                 (?wf \<longrightarrow> S = leafIds nodes (ID c))"
          using less.IH [OF edge] by blast
        from fold_dfs_bound [where f = "\<lambda>k. dfs k nm cm" and L = "leafIds nodes", OF this]
        obtain S K where
          fd: "\<forall>k\<ge>K. \<forall>acc.
                 fold (\<lambda>child a. case a of None \<Rightarrow> None | Some m \<Rightarrow> dfs k nm cm (ID child) m)
                   ?cs (Some acc) = Some (acc \<union> S)"
          and w: "?wf \<longrightarrow> S = (\<Union>c \<in> set ?cs. leafIds nodes (ID c))"
          by blast
        have "\<forall>k\<ge>Suc K. \<forall>acc. dfs k nm cm i acc = Some (acc \<union> S)"
        proof (intro allI impI)
          fix k :: nat and acc assume "Suc K \<le> k"
          then obtain k' where k': "k = Suc k'" and le: "K \<le> k'"
            by (metis Suc_le_D Suc_le_mono)
          show "dfs k nm cm i acc = Some (acc \<union> S)"
            unfolding k' using Some False fd le by (simp add: cs)
        qed
        moreover have "?wf \<longrightarrow> S = leafIds nodes i"
          using w leafIds_unfold [of nodes n] n False idn by auto
        ultimately show ?thesis by blast
      qed
    qed
  qed
qed

lemma getChildrenTreeNodeIds_dfs:
  assumes "nodeDao_GetAllNoPreload (nodeDao ts) s = Inr nodes"
    and "fold indexNode nodes (Map.empty, Map.empty) = (nm, cm)"
  shows "getChildrenTreeNodeIds k ts s r = dfs k nm cm r {}"
  using assms by (simp add: getChildrenTreeNodeIds_def)

lemma subtree_subset: "x \<in> subtree nodes r \<Longrightarrow> x \<in> set nodes"
  by (induction rule: subtree.induct) auto

lemma leafIds_only_leaves:
  assumes d: "distinct (map ID nodes)" and n: "n \<in> set nodes" and nl: "IsLeaf n \<noteq> 1"
  shows "ID n \<notin> leafIds nodes r"
proof
  assume "ID n \<in> leafIds nodes r"
  then obtain m where m: "m \<in> subtree nodes r" "IsLeaf m = 1" "ID n = ID m"
    by (auto simp: leafIds_def)
  from subtree_subset [OF m(1)] have "m \<in> set nodes" .
  from distinct_ID_eq [OF d n this m(3)] m(2) nl show False by simp
qed

text \<open>
  Claim C1. On a well-formed node set (unique IDs, no cycle in the parent links, no
  node under a leaf) and for every root ID \<open>r\<close>, the resolver returns, as soon as
  the recursion is allowed deep enough, exactly the descendant leaf set of \<open>r\<close>: the
  IDs of the leaves in the subtree rooted at \<open>r\<close>. That set holds \<open>r\<close> itself when \<open>r\<close>
  is a leaf, and never the ID of a node that is not a leaf.
\<close>

theorem getChildrenTreeNodeIds_leaf_set:
  assumes w: "wellFormed nodes"
    and g: "nodeDao_GetAllNoPreload (nodeDao ts) s = Inr nodes"
  shows "(\<exists>K. \<forall>k\<ge>K. getChildrenTreeNodeIds k ts s r = Some (leafIds nodes r)) \<and>
         (\<forall>n \<in> set nodes. ID n = r \<and> IsLeaf n = 1 \<longrightarrow> r \<in> leafIds nodes r) \<and>
         (\<forall>n \<in> set nodes. IsLeaf n \<noteq> 1 \<longrightarrow> ID n \<notin> leafIds nodes r)"
proof (intro conjI)
  obtain nm cm where ix: "fold indexNode nodes (Map.empty, Map.empty) = (nm, cm)"
    by (cases "fold indexNode nodes (Map.empty, Map.empty)") 
  from w have ac: "acyclic (parentEdges nodes)" and d: "distinct (map ID nodes)"
    and l: "\<forall>p \<in> set nodes. IsLeaf p = 1 \<longrightarrow> (\<forall>c \<in> set nodes. Pid c \<noteq> ID p)"
    by (simp_all add: wellFormed_def)
  from dfs_core [OF ac ix, of r] d l obtain K where
    "\<forall>k\<ge>K. \<forall>acc. dfs k nm cm r acc = Some (acc \<union> leafIds nodes r)"
    by blast
  then have "\<forall>k\<ge>K. getChildrenTreeNodeIds k ts s r = Some (leafIds nodes r)"
    by (simp add: getChildrenTreeNodeIds_dfs [OF g ix])
  then show "\<exists>K. \<forall>k\<ge>K. getChildrenTreeNodeIds k ts s r = Some (leafIds nodes r)" ..
next
  show "\<forall>n \<in> set nodes. ID n = r \<and> IsLeaf n = 1 \<longrightarrow> r \<in> leafIds nodes r"
    using subtree.root [of _ nodes r] by (auto simp: leafIds_def)
next
  from w have d: "distinct (map ID nodes)" by (simp add: wellFormed_def)
  show "\<forall>n \<in> set nodes. IsLeaf n \<noteq> 1 \<longrightarrow> ID n \<notin> leafIds nodes r"
    using leafIds_only_leaves [OF d] by blast
qed

lemma exNodes_acyclic: "acyclic (parentEdges exNodes)"
proof -
  have "parentEdges exNodes \<subseteq> measure (\<lambda>w. 10 - unat w)"
    by (auto simp: parentEdges_def exNodes_def mkNode_def)
  then have "wf (parentEdges exNodes)" by (rule wf_subset [OF wf_measure])
  then show ?thesis by (rule wf_acyclic)
qed

lemma exNodes_wellFormed: "wellFormed exNodes"
  unfolding wellFormed_def
proof (intro conjI)
  show "distinct (map ID exNodes)" by (simp add: exNodes_def mkNode_def)
  show "acyclic (parentEdges exNodes)" by (rule exNodes_acyclic)
  show "\<forall>p \<in> set exNodes. IsLeaf p = 1 \<longrightarrow> (\<forall>c \<in> set exNodes. Pid c \<noteq> ID p)"
    by (simp add: exNodes_def mkNode_def)
qed

lemma ex_index:
  "fold indexNode exNodes (Map.empty, Map.empty) =
    ([1 \<mapsto> mkNode 1 0 1 0, 2 \<mapsto> mkNode 2 1 2 1, 3 \<mapsto> mkNode 3 1 2 1],
     [0 \<mapsto> [mkNode 1 0 1 0], 1 \<mapsto> [mkNode 2 1 2 1, mkNode 3 1 2 1]])"
  by (simp add: exNodes_def indexNode_def sliceAt_def mkNode_def)

lemma ex_ids: "getChildrenTreeNodeIds 2 exService exDb 1 = Some {2, 3}"
  by (simp add: getChildrenTreeNodeIds_def exService_def memNodeDao_def exDb_def ex_index
        numeral_2_eq_2 sliceAt_def mkNode_def insert_commute)

text \<open>
  The example of the specification: from the root (ID 1) the resolver returns the two
  leaves, \<open>{2, 3}\<close>.
\<close>

theorem getChildrenTreeNodeIds_leaf_set_witness:
  "wellFormed exNodes \<and>
   nodeDao_GetAllNoPreload (nodeDao exService) exDb = Inr exNodes \<and>
   getChildrenTreeNodeIds 2 exService exDb 1 = Some {2, 3} \<and>
   leafIds exNodes 1 = {2, 3} \<and> 1 \<notin> leafIds exNodes 1 \<and> 2 \<in> leafIds exNodes 2"
proof -
  have g: "nodeDao_GetAllNoPreload (nodeDao exService) exDb = Inr exNodes"
    by (simp add: exService_def memNodeDao_def exDb_def)
  note t = getChildrenTreeNodeIds_leaf_set [OF exNodes_wellFormed g]
  from t [of 1] obtain K where K: "\<forall>k\<ge>K. getChildrenTreeNodeIds k exService exDb 1 = Some (leafIds exNodes 1)"
    by blast
  obtain K' where K': "\<forall>k\<ge>K'. getChildrenTreeNodeIds k exService exDb 1 = Some {2, 3}"
  proof
    show "\<forall>k\<ge>2. getChildrenTreeNodeIds k exService exDb 1 = Some {2, 3}"
    proof (intro allI impI)
      fix k :: nat assume "2 \<le> k"
      then obtain j where "k = Suc (Suc j)" by (metis Suc_le_D numeral_2_eq_2 Suc_le_mono)
      then show "getChildrenTreeNodeIds k exService exDb 1 = Some {2, 3}"
        by (simp add: getChildrenTreeNodeIds_def exService_def memNodeDao_def exDb_def ex_index
             sliceAt_def mkNode_def insert_commute)
    qed
  qed
  have "getChildrenTreeNodeIds (max K K') exService exDb 1 = Some (leafIds exNodes 1)"
    using K by simp
  moreover have "getChildrenTreeNodeIds (max K K') exService exDb 1 = Some {2, 3}"
    using K' by simp
  ultimately have l: "leafIds exNodes 1 = {2, 3}" by simp
  have "1 \<notin> leafIds exNodes 1" using l by simp
  moreover have "2 \<in> leafIds exNodes 2" using t [of 2] by (simp add: exNodes_def mkNode_def)
  ultimately show ?thesis using exNodes_wellFormed g ex_ids l by simp
qed

text \<open>
  Claim C9, as amended. The traversal has no guard against visiting a node again. On
  every node set whose parent links have no cycle it returns, for every root ID, once
  the recursion is allowed deep enough.
\<close>

theorem getChildrenTreeNodeIds_terminates_acyclic:
  assumes ac: "acyclic (parentEdges nodes)"
    and g: "nodeDao_GetAllNoPreload (nodeDao ts) s = Inr nodes"
  shows "\<exists>K. \<forall>k\<ge>K. \<exists>S. getChildrenTreeNodeIds k ts s r = Some S"
proof -
  obtain nm cm where ix: "fold indexNode nodes (Map.empty, Map.empty) = (nm, cm)"
    by (cases "fold indexNode nodes (Map.empty, Map.empty)") 
  from dfs_core [OF ac ix, of r] obtain S K where
    "\<forall>k\<ge>K. \<forall>acc. dfs k nm cm r acc = Some (acc \<union> S)"
    by blast
  then have "\<forall>k\<ge>K. \<exists>S. getChildrenTreeNodeIds k ts s r = Some S"
    by (simp add: getChildrenTreeNodeIds_dfs [OF g ix])
  then show ?thesis ..
qed

theorem getChildrenTreeNodeIds_terminates_acyclic_witness:
  "acyclic (parentEdges exNodes) \<and>
   nodeDao_GetAllNoPreload (nodeDao exService) exDb = Inr exNodes \<and>
   (\<exists>K. \<forall>k\<ge>K. \<exists>S. getChildrenTreeNodeIds k exService exDb 1 = Some S)"
proof -
  have g: "nodeDao_GetAllNoPreload (nodeDao exService) exDb = Inr exNodes"
    by (simp add: exService_def memNodeDao_def exDb_def)
  show ?thesis using exNodes_acyclic g getChildrenTreeNodeIds_terminates_acyclic [OF exNodes_acyclic g, of 1] by simp
qed

lemma exCycle_index:
  "fold indexNode (node_rows exCycleDb) (Map.empty, Map.empty) =
    ([1 \<mapsto> mkNode 1 2 2 0, 2 \<mapsto> mkNode 2 1 2 0],
     [2 \<mapsto> [mkNode 1 2 2 0], 1 \<mapsto> [mkNode 2 1 2 0]])"
  by (simp add: exCycleDb_def indexNode_def sliceAt_def mkNode_def)

lemma exCycle_dfs:
  "dfs k [1 \<mapsto> mkNode 1 2 2 0, 2 \<mapsto> mkNode 2 1 2 0]
         [2 \<mapsto> [mkNode 1 2 2 0], 1 \<mapsto> [mkNode 2 1 2 0]] 1 acc = None \<and>
   dfs k [1 \<mapsto> mkNode 1 2 2 0, 2 \<mapsto> mkNode 2 1 2 0]
         [2 \<mapsto> [mkNode 1 2 2 0], 1 \<mapsto> [mkNode 2 1 2 0]] 2 acc = None"
proof (induction k arbitrary: acc)
  case 0
  show ?case by simp
next
  case (Suc k)
  then show ?case by (simp add: sliceAt_def mkNode_def)
qed

text \<open>
  Claim C9 as stated fails: on two non-leaf nodes that are each other's parent the
  traversal started at one of them does not return, whatever depth of recursion is
  allowed.
\<close>

theorem getChildrenTreeNodeIds_cycle_counterexample:
  "(1, 2) \<in> parentEdges (node_rows exCycleDb) \<and>
   (2, 1) \<in> parentEdges (node_rows exCycleDb) \<and>
   (\<forall>fuel. getChildrenTreeNodeIds fuel exService exCycleDb 1 = None)"
proof (intro conjI)
  show "(1, 2) \<in> parentEdges (node_rows exCycleDb)"
    unfolding parentEdges_def
    by (rule CollectI, rule exI [of _ "mkNode 1 2 2 0"]) (simp add: exCycleDb_def mkNode_def)
  show "(2, 1) \<in> parentEdges (node_rows exCycleDb)"
    unfolding parentEdges_def
    by (rule CollectI, rule exI [of _ "mkNode 2 1 2 0"]) (simp add: exCycleDb_def mkNode_def)
  have g: "nodeDao_GetAllNoPreload (nodeDao exService) exCycleDb = Inr (node_rows exCycleDb)"
    by (simp add: exService_def memNodeDao_def)
  show "\<forall>fuel. getChildrenTreeNodeIds fuel exService exCycleDb 1 = None"
    by (simp add: getChildrenTreeNodeIds_dfs [OF g exCycle_index] exCycle_dfs)
qed

lemma leafIds_empty_iff: "leafIds nodes r = {} \<longleftrightarrow> (\<forall>n \<in> subtree nodes r. IsLeaf n \<noteq> 1)"
  by (auto simp: leafIds_def)

text \<open>
  Claim C4, as amended. For every node set: if the root ID is absent the resolver
  returns the empty set, so a non-empty result means the root ID is present; and when
  the root ID is that of a leaf (IDs being unique) the result is the set of that one
  ID. Presence alone does not make the result non-empty: on a well-formed node set the
  resolver returns, once the recursion is allowed deep enough, a set that is empty if
  and only if the subtree rooted at the root ID holds no leaf.
\<close>

theorem getChildrenTreeNodeIds_empty_if_absent:
  assumes g: "nodeDao_GetAllNoPreload (nodeDao ts) s = Inr nodes"
  shows "(r \<notin> ID ` set nodes \<longrightarrow> getChildrenTreeNodeIds (Suc k) ts s r = Some {}) \<and>
         (\<forall>S. getChildrenTreeNodeIds k ts s r = Some S \<and> S \<noteq> {} \<longrightarrow> r \<in> ID ` set nodes) \<and>
         (distinct (map ID nodes) \<longrightarrow>
            (\<forall>n \<in> set nodes. ID n = r \<and> IsLeaf n = 1 \<longrightarrow>
               getChildrenTreeNodeIds (Suc k) ts s r = Some {r})) \<and>
         (wellFormed nodes \<longrightarrow>
            (\<exists>K. \<forall>k'\<ge>K. \<exists>S. getChildrenTreeNodeIds k' ts s r = Some S \<and>
                     (S = {} \<longleftrightarrow> (\<forall>n \<in> subtree nodes r. IsLeaf n \<noteq> 1))))"
proof -
  obtain nm cm where ix: "fold indexNode nodes (Map.empty, Map.empty) = (nm, cm)"
    by (cases "fold indexNode nodes (Map.empty, Map.empty)") 
  note gd = getChildrenTreeNodeIds_dfs [OF g ix]
  have a: "getChildrenTreeNodeIds (Suc k) ts s r = Some {}" if "r \<notin> ID ` set nodes"
    using that nodeMap_None [OF ix, of r] by (simp add: gd)
  have b: "r \<in> ID ` set nodes" if "getChildrenTreeNodeIds k ts s r = Some S" "S \<noteq> {}" for S
  proof (rule ccontr)
    assume "r \<notin> ID ` set nodes"
    then have none: "nm r = None" using nodeMap_None [OF ix, of r] by simp
    show False
    proof (cases k)
      case 0
      with that show False by (simp add: gd)
    next
      case (Suc j)
      with that none show False by (simp add: gd)
    qed
  qed
  have c: "getChildrenTreeNodeIds (Suc k) ts s r = Some {r}"
    if d: "distinct (map ID nodes)" and n: "n \<in> set nodes" "ID n = r" "IsLeaf n = 1" for n
  proof -
    have "nm r \<noteq> None" using nodeMap_None [OF ix, of r] n by auto
    then obtain m where m: "nm r = Some m" by auto
    from nodeMap_Some [OF ix m] have "m \<in> set nodes" "ID m = r" by simp_all
    with distinct_ID_eq [OF d _ n(1)] n(2) have "m = n" by simp
    with m n show ?thesis by (simp add: gd)
  qed
  have e: "\<exists>K. \<forall>k'\<ge>K. \<exists>S. getChildrenTreeNodeIds k' ts s r = Some S \<and>
                     (S = {} \<longleftrightarrow> (\<forall>n \<in> subtree nodes r. IsLeaf n \<noteq> 1))"
    if w: "wellFormed nodes"
  proof -
    from w have ac: "acyclic (parentEdges nodes)" and d: "distinct (map ID nodes)"
      and l: "\<forall>p \<in> set nodes. IsLeaf p = 1 \<longrightarrow> (\<forall>c \<in> set nodes. Pid c \<noteq> ID p)"
      by (simp_all add: wellFormed_def)
    from dfs_core [OF ac ix, of r] d l obtain K where
      "\<forall>k\<ge>K. \<forall>acc. dfs k nm cm r acc = Some (acc \<union> leafIds nodes r)"
      by blast
    then have "\<forall>k'\<ge>K. getChildrenTreeNodeIds k' ts s r = Some (leafIds nodes r)"
      by (simp add: gd)
    then have "\<forall>k'\<ge>K. \<exists>S. getChildrenTreeNodeIds k' ts s r = Some S \<and>
                     (S = {} \<longleftrightarrow> (\<forall>n \<in> subtree nodes r. IsLeaf n \<noteq> 1))"
      using leafIds_empty_iff [of nodes r] by simp
    then show ?thesis ..
  qed
  from a b c e show ?thesis by blast
qed

text \<open>
  Claim C4 as stated fails: a root that is present, is not a leaf and has no children
  resolves to the empty set.
\<close>

theorem getChildrenTreeNodeIds_present_empty_counterexample:
  "list_ex (\<lambda>n. ID n = 1) (node_rows exLoneDb) \<and>
   nodeDao_GetAllNoPreload (nodeDao exService) exLoneDb = Inr (node_rows exLoneDb) \<and>
   getChildrenTreeNodeIds 2 exService exLoneDb 1 = Some {}"
  by (simp add: getChildrenTreeNodeIds_def exService_def memNodeDao_def exLoneDb_def
        indexNode_def sliceAt_def mkNode_def numeral_2_eq_2)

text \<open>
  In the example: ID 9 is absent, ID 2 is a leaf, and the subtree of the root (ID 1)
  holds the leaf with ID 2, so the result for the root is not empty.
\<close>

theorem getChildrenTreeNodeIds_empty_if_absent_witness:
  "nodeDao_GetAllNoPreload (nodeDao exService) exDb = Inr exNodes \<and>
   9 \<notin> ID ` set exNodes \<and> getChildrenTreeNodeIds (Suc 0) exService exDb 9 = Some {} \<and>
   getChildrenTreeNodeIds (Suc 0) exService exDb 2 = Some {2} \<and>
   wellFormed exNodes \<and> mkNode 2 1 2 1 \<in> subtree exNodes 1 \<and>
   (\<exists>K. \<forall>k'\<ge>K. \<exists>S. getChildrenTreeNodeIds k' exService exDb 1 = Some S \<and> S \<noteq> {})"
proof -
  have g: "nodeDao_GetAllNoPreload (nodeDao exService) exDb = Inr exNodes"
    by (simp add: exService_def memNodeDao_def exDb_def)
  have r: "mkNode 1 0 1 0 \<in> subtree exNodes 1"
    by (rule subtree.root) (simp_all add: exNodes_def mkNode_def)
  have l: "mkNode 2 1 2 1 \<in> subtree exNodes 1"
    by (rule subtree.child [OF r]) (simp_all add: exNodes_def mkNode_def)
  have lf: "IsLeaf (mkNode 2 1 2 1) = 1" by (simp add: mkNode_def)
  note t = getChildrenTreeNodeIds_empty_if_absent [OF g]
  from t [of 1 0] exNodes_wellFormed obtain K where
    "\<forall>k'\<ge>K. \<exists>S. getChildrenTreeNodeIds k' exService exDb 1 = Some S \<and>
                     (S = {} \<longleftrightarrow> (\<forall>n \<in> subtree exNodes 1. IsLeaf n \<noteq> 1))"
    by blast
  with l lf have "\<forall>k'\<ge>K. \<exists>S. getChildrenTreeNodeIds k' exService exDb 1 = Some S \<and> S \<noteq> {}"
    by blast
  then have "\<exists>K. \<forall>k'\<ge>K. \<exists>S. getChildrenTreeNodeIds k' exService exDb 1 = Some S \<and> S \<noteq> {}" ..
  moreover have "9 \<notin> ID ` set exNodes \<and> getChildrenTreeNodeIds (Suc 0) exService exDb 9 = Some {} \<and>
   getChildrenTreeNodeIds (Suc 0) exService exDb 2 = Some {2}"
    using t [of 9 0] t [of 2 0] by (simp add: exNodes_def mkNode_def)
  ultimately show ?thesis using g exNodes_wellFormed l by blast
qed

section \<open>Properties of the scoped resource aggregation\<close>

lemma sint_word_of_nat:
  assumes "x < 2 ^ 63"
  shows "sint (word_of_nat x :: go_int) = int x"
proof -
  have "sint (word_of_nat x :: go_int) = signed_take_bit 63 (int x)"
    by (simp add: signed_of_nat)
  also have "\<dots> = int x"
    using assms by (intro signed_take_bit_int_eq_self) simp_all
  finally show ?thesis .
qed

lemma chunks_take:
  "concat (map (\<lambda>i. take K (drop (i * K) rs)) [0..<m]) = take (m * K) rs"
proof (induction m)
  case 0
  show ?case by simp
next
  case (Suc m)
  have "take (m * K) rs @ take K (drop (m * K) rs) = take (m * K + K) rs"
    by (simp add: take_add)
  with Suc show ?case by (simp add: add.commute)
qed

lemma paginate_window:
  assumes so: "sint ((page - 1) * k) = int off" and se: "sint ((page - 1) * k + k) = int (off + K)"
    and lt: "off < length rs"
  shows "paginate rs page k = Inr (take K (drop off rs))"
proof (cases "length rs < off + K")
  case True
  then have "length (drop off rs) \<le> K" by simp
  then have "take (length rs - off) (drop off rs) = take K (drop off rs)" by simp
  with True lt show ?thesis
    unfolding paginate_def Let_def so se by simp
next
  case False
  with lt show ?thesis
    unfolding paginate_def Let_def so se by (simp add: nat_int_add)
qed

lemma paginate_page:
  fixes k :: go_int
  assumes k: "0 < sint k" and n: "length rs < 2 ^ 62" and i: "i * nat (sint k) < length rs"
  shows "paginate rs (word_of_nat (Suc i)) k = Inr (take (nat (sint k)) (drop (i * nat (sint k)) rs))"
proof -
  define K where "K = nat (sint k)"
  have kK: "k = word_of_nat K" and Kpos: "0 < K" and sK: "sint k = int K"
    using k by (simp_all add: K_def)
  have Klt: "K < 2 ^ 63" using sint_lt [of k] sK by simp
  have off: "(word_of_nat (Suc i) - 1) * k = (word_of_nat (i * K) :: go_int)"
    by (simp add: kK)
  have lt: "i * K < length rs" using i by (simp add: K_def)
  define N where "N = (2::nat) ^ 62"
  have N2: "2 * N = 2 ^ 63" by (simp add: N_def)
  have iN: "i * K < N" using lt n unfolding N_def by (rule less_trans)
  have iK: "i * K < 2 ^ 63" using iN N2 by linarith
  have so: "sint ((word_of_nat (Suc i) - 1) * k) = int (i * K)"
    unfolding off using iK by (rule sint_word_of_nat)
  have "i * K + K < 2 ^ 63"
  proof (cases "i = 0")
    case True
    then show ?thesis using Klt by simp
  next
    case False
    then have "K \<le> i * K" by simp
    then show ?thesis using iN N2 by linarith
  qed
  then have se: "sint ((word_of_nat (Suc i) - 1) * k + k) = int (i * K + K)"
    using sint_word_of_nat [of "i * K + K"] by (simp add: off kK)
  show ?thesis
    using paginate_window [OF so se lt] by (simp add: K_def)
qed

lemma ceil_pages:
  assumes "0 < K" and "i < (n + K - 1) div K"
  shows "i * K < (n::nat)"
proof (rule ccontr)
  assume "\<not> i * K < n"
  then have "n + K - 1 < (i + 1) * K" using assms(1) by simp
  then have "(n + K - 1) div K < i + 1"
    using assms(1) by (simp add: less_mult_imp_div_less)
  with assms(2) show False by simp
qed

lemma ceil_covers:
  assumes "0 < K"
  shows "(n::nat) \<le> ((n + K - 1) div K) * K"
proof -
  have "n + K - 1 = ((n + K - 1) div K) * K + (n + K - 1) mod K" by simp
  moreover have "(n + K - 1) mod K < K" using assms by simp
  ultimately show ?thesis by linarith
qed

lemma paginate_concat:
  fixes k :: go_int
  assumes k: "0 < sint k" and n: "length rs < 2 ^ 62"
  shows "map (\<lambda>p. paginate rs (word_of_nat p) k)
             [1..<Suc ((length rs + nat (sint k) - 1) div nat (sint k))]
         = map (\<lambda>i. Inr (take (nat (sint k)) (drop (i * nat (sint k)) rs)))
             [0..<(length rs + nat (sint k) - 1) div nat (sint k)]"
proof -
  define K where "K = nat (sint k)"
  define m where "m = (length rs + K - 1) div K"
  have Kpos: "0 < K" using k by (simp add: K_def)
  have "map (\<lambda>p. paginate rs (word_of_nat p) k) [1..<Suc m]
          = map (\<lambda>i. paginate rs (word_of_nat (Suc i)) k) [0..<m]"
    unfolding One_nat_def map_Suc_upt [symmetric] by (simp add: comp_def del: upt_Suc)
  also have "\<dots> = map (\<lambda>i. Inr (take K (drop (i * K) rs))) [0..<m]"
  proof (rule map_cong [OF refl])
    fix i assume "i \<in> set [0..<m]"
    then have "i * K < length rs" using ceil_pages [OF Kpos] by (simp add: m_def)
    then show "paginate rs (word_of_nat (Suc i)) k = Inr (take K (drop (i * K) rs))"
      unfolding K_def using paginate_page [OF k n] by simp
  qed
  finally show ?thesis by (simp add: K_def m_def)
qed

lemma paginate_beyond:
  "int (length rs) \<le> sint ((page - 1) * k) \<Longrightarrow> paginate rs page k = Inr []"
  by (simp add: paginate_def)

lemma GetAllResourcesByType_paginate:
  assumes "getChildrenTreeNodeIds fuel ts s nid = Some ids"
    and "collectResources ts s ids rtype = Inr rs"
  shows "GetAllResourcesByType fuel ts s nid rtype page k = Some (paginate rs page k)"
  using assms by (simp add: GetAllResourcesByType_def)

lemma sint_offset_no_wrap:
  fixes page k :: go_int
  assumes p: "0 < sint page"
    and lo: "0 \<le> (sint page - 1) * sint k"
    and hi: "(sint page - 1) * sint k < 2 ^ 63"
  shows "sint ((page - 1) * k) = (sint page - 1) * sint k"
proof -
  have "sint (page - 1) = signed_take_bit 63 (sint page - sint (1 :: go_int))"
    by (simp add: sint_word_ariths)
  also have "\<dots> = signed_take_bit 63 (sint page - 1)" by simp
  also have "\<dots> = sint page - 1"
    using p sint_lt [of page] by (intro signed_take_bit_int_eq_self) simp_all
  finally have m: "sint (page - 1) = sint page - 1" .
  have "sint ((page - 1) * k) = signed_take_bit 63 (sint (page - 1) * sint k)"
    by (simp add: sint_word_ariths)
  also have "\<dots> = (sint page - 1) * sint k"
    unfolding m using lo hi by (intro signed_take_bit_int_eq_self) simp_all
  finally show ?thesis .
qed

text \<open>
  Claim C8, as amended. Let \<open>rs\<close> be the filtered result of an aggregation query (the
  resolver returned and the store of the resource type did not fail), of a length a Go
  slice of pointers can have (below \<open>2^62\<close>). For every positive page size \<open>k\<close>, the
  pages \<open>1\<close> to \<open>ceil(length rs / k)\<close> are all returned without error and their
  concatenation, in order, is \<open>rs\<close>. A call with a positive page whose offset
  \<open>(page-1)*size\<close>, as an integer, is at least the length of \<open>rs\<close> and below \<open>2^63\<close>
  (so that the product does not wrap around) returns the empty page and no error; so
  does every call whose offset as the code computes it, wrapped to 64 bits, is at least
  the length of \<open>rs\<close>.
\<close>

theorem GetAllResourcesByType_pagination:
  fixes k :: go_int
  assumes ids: "getChildrenTreeNodeIds fuel ts s nid = Some ids"
    and rs: "collectResources ts s ids rtype = Inr rs"
    and n: "length rs < 2 ^ 62"
  shows "(0 < sint k \<longrightarrow>
           (\<exists>pages.
              map (\<lambda>p. GetAllResourcesByType fuel ts s nid rtype (word_of_nat p) k)
                  [1..<Suc ((length rs + nat (sint k) - 1) div nat (sint k))]
                = map (\<lambda>pg. Some (Inr pg)) pages
              \<and> concat pages = rs)) \<and>
         (\<forall>page. 0 < sint page \<and> int (length rs) \<le> (sint page - 1) * sint k \<and>
                 (sint page - 1) * sint k < 2 ^ 63 \<longrightarrow>
            GetAllResourcesByType fuel ts s nid rtype page k = Some (Inr [])) \<and>
         (\<forall>page. int (length rs) \<le> sint ((page - 1) * k) \<longrightarrow>
            GetAllResourcesByType fuel ts s nid rtype page k = Some (Inr []))"
proof (intro conjI impI allI)
  assume k: "0 < sint k"
  define K where "K = nat (sint k)"
  define m where "m = (length rs + K - 1) div K"
  define pages where "pages = map (\<lambda>i. take K (drop (i * K) rs)) [0..<m]"
  have Kpos: "0 < K" using k by (simp add: K_def)
  have "map (\<lambda>p. GetAllResourcesByType fuel ts s nid rtype (word_of_nat p) k) [1..<Suc m]
          = map (\<lambda>r. Some r) (map (\<lambda>p. paginate rs (word_of_nat p) k) [1..<Suc m])"
    by (simp add: GetAllResourcesByType_paginate [OF ids rs] del: upt_Suc)
  also have "\<dots> = map (\<lambda>pg. Some (Inr pg)) pages"
    using paginate_concat [OF k n] by (simp add: K_def m_def pages_def comp_def del: upt_Suc)
  finally have a: "map (\<lambda>p. GetAllResourcesByType fuel ts s nid rtype (word_of_nat p) k) [1..<Suc m]
          = map (\<lambda>pg. Some (Inr pg)) pages" .
  have "concat pages = take (m * K) rs" by (simp add: pages_def chunks_take)
  also have "\<dots> = rs" using ceil_covers [OF Kpos, of "length rs"] by (simp add: m_def)
  finally have "concat pages = rs" .
  with a show "\<exists>pages.
              map (\<lambda>p. GetAllResourcesByType fuel ts s nid rtype (word_of_nat p) k)
                  [1..<Suc ((length rs + nat (sint k) - 1) div nat (sint k))]
                = map (\<lambda>pg. Some (Inr pg)) pages
              \<and> concat pages = rs"
    unfolding m_def K_def by blast
next
  fix page :: go_int
  assume a: "0 < sint page \<and> int (length rs) \<le> (sint page - 1) * sint k \<and>
                 (sint page - 1) * sint k < 2 ^ 63"
  then have "0 \<le> (sint page - 1) * sint k" by linarith
  with a have "sint ((page - 1) * k) = (sint page - 1) * sint k"
    by (intro sint_offset_no_wrap) simp_all
  with a have "int (length rs) \<le> sint ((page - 1) * k)" by simp
  then show "GetAllResourcesByType fuel ts s nid rtype page k = Some (Inr [])"
    by (simp add: GetAllResourcesByType_paginate [OF ids rs] paginate_beyond)
next
  fix page :: go_int assume "int (length rs) \<le> sint ((page - 1) * k)"
  then show "GetAllResourcesByType fuel ts s nid rtype page k = Some (Inr [])"
    by (simp add: GetAllResourcesByType_paginate [OF ids rs] paginate_beyond)
qed

lemma exEcs_ids: "getChildrenTreeNodeIds 2 exService exEcsDb 1 = Some {2, 3}"
  by (simp add: getChildrenTreeNodeIds_def exService_def memNodeDao_def exEcsDb_def ex_index
        numeral_2_eq_2 sliceAt_def mkNode_def insert_commute)

lemma exEcs_resources:
  "collectResources exService exEcsDb {2, 3} ''ecs''
     = Inr [Tree (mkRes 1 [2]), Tree (mkRes 3 [3])]"
  by (simp add: collectResources_def exService_def memEcsDao_def exEcsDb_def mkRes_def)

text \<open>
  Claim C8 as stated fails where the product wraps around. With page 3 and size
  \<open>2^62\<close> the offset \<open>2^63\<close> wraps to the smallest \<open>int\<close>, which passes the test against
  the length, and the slice expression panics. With page \<open>2^62 + 1\<close> and size 4 the
  offset \<open>2^64\<close> wraps to 0 and the call returns the first page. In both calls page and
  size are positive and \<open>(page-1)*size\<close> is far above the length.
\<close>

theorem GetAllResourcesByType_offset_overflow_counterexample:
  "getChildrenTreeNodeIds 2 exService exEcsDb 1 = Some {2, 3} \<and>
   collectResources exService exEcsDb {2, 3} ''ecs''
     = Inr [Tree (mkRes 1 [2]), Tree (mkRes 3 [3])] \<and>
   0 < sint (3 :: go_int) \<and> 0 < sint (0x4000000000000000 :: go_int) \<and>
   int (length [Tree (mkRes 1 [2]), Tree (mkRes 3 [3])])
     \<le> (sint (3 :: go_int) - 1) * sint (0x4000000000000000 :: go_int) \<and>
   GetAllResourcesByType 2 exService exEcsDb 1 ''ecs'' 3 0x4000000000000000
     = Some (Inl PanicSliceBounds) \<and>
   0 < sint (0x4000000000000001 :: go_int) \<and> 0 < sint (4 :: go_int) \<and>
   int (length [Tree (mkRes 1 [2]), Tree (mkRes 3 [3])])
     \<le> (sint (0x4000000000000001 :: go_int) - 1) * sint (4 :: go_int) \<and>
   GetAllResourcesByType 2 exService exEcsDb 1 ''ecs'' 0x4000000000000001 4
     = Some (Inr [Tree (mkRes 1 [2]), Tree (mkRes 3 [3])])"
  by (simp add: GetAllResourcesByType_def exEcs_ids exEcs_resources paginate_def)

text \<open>
  With page size 1 the two resources under the root come one to a page; page 3 is
  empty.
\<close>

theorem GetAllResourcesByType_pagination_witness:
  "getChildrenTreeNodeIds 2 exService exEcsDb 1 = Some {2, 3} \<and>
   collectResources exService exEcsDb {2, 3} ''ecs''
     = Inr [Tree (mkRes 1 [2]), Tree (mkRes 3 [3])] \<and>
   (\<exists>pages. map (\<lambda>p. GetAllResourcesByType 2 exService exEcsDb 1 ''ecs'' (word_of_nat p) 1)
                [1..<3]
              = map (\<lambda>pg. Some (Inr pg)) pages
            \<and> concat pages = [Tree (mkRes 1 [2]), Tree (mkRes 3 [3])]) \<and>
   GetAllResourcesByType 2 exService exEcsDb 1 ''ecs'' 3 1 = Some (Inr [])"
proof -
  have n: "length [Tree (mkRes 1 [2]), Tree (mkRes 3 [3])] < 2 ^ 62" by simp
  note t = GetAllResourcesByType_pagination [OF exEcs_ids exEcs_resources n, of 1]
  from t have "\<exists>pages. map (\<lambda>p. GetAllResourcesByType 2 exService exEcsDb 1 ''ecs'' (word_of_nat p) 1)
                [1..<3]
              = map (\<lambda>pg. Some (Inr pg)) pages
            \<and> concat pages = [Tree (mkRes 1 [2]), Tree (mkRes 3 [3])]"
    by (simp add: numeral_3_eq_3)
  moreover from t have "\<forall>page. 0 < sint page \<and> 2 \<le> (sint page - 1) * sint (1 :: go_int) \<and>
                 (sint page - 1) * sint (1 :: go_int) < 2 ^ 63 \<longrightarrow>
            GetAllResourcesByType 2 exService exEcsDb 1 ''ecs'' page 1 = Some (Inr [])"
    by simp
  then have "GetAllResourcesByType 2 exService exEcsDb 1 ''ecs'' 3 1 = Some (Inr [])"
    by simp
  ultimately show ?thesis using exEcs_ids exEcs_resources by blast
qed


text \<open>
  Claim C3 (the code departs from it). When the fetch of the node set fails inside
  \<open>getChildrenTreeNodeIds\<close>, the error is logged and dropped: the function returns
  the nil map, and \<open>GetAllResourcesByType\<close> goes on and returns the empty page with
  no error, where the same query over the working store returns the two resources
  under the root. (A failure of the resource store, in the same function, is returned
  to the caller.)
\<close>

theorem GetAllResourcesByType_drops_node_failure:
  "nodeDao_GetAllNoPreload (nodeDao exFailService) exEcsDb = Inl (ErrStore 1) \<and>
   (\<forall>fuel. GetAllResourcesByType fuel exFailService exEcsDb 1 ''ecs'' 1 10 = Some (Inr [])) \<and>
   GetAllResourcesByType 2 exService exEcsDb 1 ''ecs'' 1 10
     = Some (Inr [Tree (mkRes 1 [2]), Tree (mkRes 3 [3])])"
proof (intro conjI)
  show "nodeDao_GetAllNoPreload (nodeDao exFailService) exEcsDb = Inl (ErrStore 1)"
    by (simp add: exFailService_def failingNodeDao_def)
  show "\<forall>fuel. GetAllResourcesByType fuel exFailService exEcsDb 1 ''ecs'' 1 10 = Some (Inr [])"
    by (simp add: GetAllResourcesByType_def getChildrenTreeNodeIds_def exFailService_def
          failingNodeDao_def collectResources_def exService_def memEcsDao_def exEcsDb_def
          mkRes_def paginate_def)
  show "GetAllResourcesByType 2 exService exEcsDb 1 ''ecs'' 1 10
          = Some (Inr [Tree (mkRes 1 [2]), Tree (mkRes 3 [3])])"
    by (simp add: GetAllResourcesByType_def exEcs_ids exEcs_resources paginate_def)
qed

section \<open>Properties of the Tree Builder\<close>

lemma sliceAt_upd:
  "sliceAt (m(k \<mapsto> v)) p = (if p = k then v else sliceAt m p)"
  by (simp add: sliceAt_def)

lemma classify_step:
  "classify a (heap, topNodes, childrenMap) =
     (heap[a := (heap ! a)\<lparr>Key := Itoa (ID (heap ! a))\<rparr>],
      if Pid (heap ! a) = 0 then topNodes @ [a] else topNodes,
      if Pid (heap ! a) = 0 then childrenMap
      else childrenMap(Pid (heap ! a) \<mapsto> sliceAt childrenMap (Pid (heap ! a)) @ [a]))"
  by (simp add: classify_def Let_def)

lemma classify_fold:
  assumes "m \<le> length nodes"
  shows "\<exists>heap cm. fold classify [0..<m] (nodes, [], Map.empty)
                     = (heap, filter (\<lambda>a. Pid (nodes ! a) = 0) [0..<m], cm) \<and>
                   sameLinks heap nodes \<and>
                   (\<forall>p. sliceAt cm p = filter (\<lambda>a. Pid (nodes ! a) = p \<and> p \<noteq> 0) [0..<m])"
  using assms
proof (induction m)
  case 0
  show ?case by (simp add: sameLinks_def sliceAt_def)
next
  case (Suc m)
  then obtain heap cm where
    f: "fold classify [0..<m] (nodes, [], Map.empty)
          = (heap, filter (\<lambda>a. Pid (nodes ! a) = 0) [0..<m], cm)"
    and sl: "sameLinks heap nodes"
    and cm: "\<And>p. sliceAt cm p = filter (\<lambda>a. Pid (nodes ! a) = p \<and> p \<noteq> 0) [0..<m]"
    by auto
  from Suc.prems have m: "m < length nodes" by simp
  from sl m have pm: "Pid (heap ! m) = Pid (nodes ! m)" and len: "length heap = length nodes"
    by (simp_all add: sameLinks_def)
  let ?heap = "heap[m := (heap ! m)\<lparr>Key := Itoa (ID (heap ! m))\<rparr>]"
  let ?cm = "if Pid (nodes ! m) = 0 then cm
             else cm(Pid (nodes ! m) \<mapsto> sliceAt cm (Pid (nodes ! m)) @ [m])"
  have "fold classify [0..<Suc m] (nodes, [], Map.empty)
          = (?heap, filter (\<lambda>a. Pid (nodes ! a) = 0) [0..<Suc m], ?cm)"
    by (simp add: f classify_step pm)
  moreover have "sameLinks ?heap nodes"
    using sl m by (auto simp: sameLinks_def nth_list_update)
  moreover have "\<forall>p. sliceAt ?cm p = filter (\<lambda>a. Pid (nodes ! a) = p \<and> p \<noteq> 0) [0..<Suc m]"
    by (auto simp: sliceAt_upd cm)
  ultimately show ?case by blast
qed

lemma attach_fold:
  assumes "m \<le> length heap"
  shows "length (fold (attach cm) [0..<m] heap) = length heap \<and>
         (\<forall>b < length heap.
            fold (attach cm) [0..<m] heap ! b =
              (if b < m then (case cm (ID (heap ! b)) of
                               Some children \<Rightarrow> (heap ! b)\<lparr>Children := children\<rparr>
                             | None \<Rightarrow> heap ! b)
               else heap ! b))"
  using assms
proof (induction m)
  case 0
  show ?case by simp
next
  case (Suc m)
  let ?h = "fold (attach cm) [0..<m] heap"
  from Suc have len: "length ?h = length heap"
    and nth: "\<And>b. b < length heap \<Longrightarrow> ?h ! b =
              (if b < m then (case cm (ID (heap ! b)) of
                               Some children \<Rightarrow> (heap ! b)\<lparr>Children := children\<rparr>
                             | None \<Rightarrow> heap ! b)
               else heap ! b)"
    by simp_all
  from Suc.prems have m: "m < length heap" by simp
  have hm: "?h ! m = heap ! m" using nth [OF m] by simp
  have step: "fold (attach cm) [0..<Suc m] heap = attach cm m ?h" by simp
  show ?case
  proof (cases "cm (ID (heap ! m))")
    case None
    then have "attach cm m ?h = ?h" by (simp add: attach_def hm)
    with None len nth show ?thesis
      unfolding step by (auto simp: less_Suc_eq)
  next
    case (Some children)
    then have "attach cm m ?h = ?h[m := (heap ! m)\<lparr>Children := children\<rparr>]"
      by (simp add: attach_def hm)
    with Some len nth m show ?thesis
      unfolding step by (auto simp: less_Suc_eq nth_list_update)
  qed
qed

lemma buildTree_shape:
  assumes fresh: "\<forall>n \<in> set nodes. Children n = []"
  shows "\<exists>heap. buildTree nodes = (filter (\<lambda>a. Pid (nodes ! a) = 0) [0..<length nodes], heap) \<and>
           length heap = length nodes \<and>
           (\<forall>b < length nodes.
              Children (heap ! b)
                = filter (\<lambda>a. Pid (nodes ! a) = ID (nodes ! b) \<and> Pid (nodes ! a) \<noteq> 0)
                    [0..<length nodes])"
proof -
  from classify_fold [of "length nodes" nodes] obtain heap cm where
    f: "fold classify [0..<length nodes] (nodes, [], Map.empty)
          = (heap, filter (\<lambda>a. Pid (nodes ! a) = 0) [0..<length nodes], cm)"
    and sl: "sameLinks heap nodes"
    and cm: "\<And>p. sliceAt cm p = filter (\<lambda>a. Pid (nodes ! a) = p \<and> p \<noteq> 0) [0..<length nodes]"
    by auto
  from sl have len: "length heap = length nodes" by (simp add: sameLinks_def)
  let ?h = "fold (attach cm) [0..<length nodes] heap"
  from attach_fold [of "length nodes" heap cm] len
  have len2: "length ?h = length nodes"
    and nth: "\<And>b. b < length nodes \<Longrightarrow> ?h ! b =
                (case cm (ID (heap ! b)) of
                   Some children \<Rightarrow> (heap ! b)\<lparr>Children := children\<rparr>
                 | None \<Rightarrow> heap ! b)"
    by simp_all
  have "Children (?h ! b)
          = filter (\<lambda>a. Pid (nodes ! a) = ID (nodes ! b) \<and> Pid (nodes ! a) \<noteq> 0) [0..<length nodes]"
    if b: "b < length nodes" for b
  proof -
    from sl b have idb: "ID (heap ! b) = ID (nodes ! b)"
      and chb: "Children (heap ! b) = Children (nodes ! b)"
      by (simp_all add: sameLinks_def)
    from fresh b have "Children (nodes ! b) = []" by simp
    with chb have "Children (?h ! b) = sliceAt cm (ID (nodes ! b))"
      unfolding nth [OF b] idb by (simp add: sliceAt_def split: option.splits)
    also have "\<dots> = filter (\<lambda>a. Pid (nodes ! a) = ID (nodes ! b) \<and> Pid (nodes ! a) \<noteq> 0) [0..<length nodes]"
      unfolding cm by (rule filter_cong) auto
    finally show ?thesis .
  qed
  with len2 f show ?thesis by (simp add: buildTree_def)
qed

lemma buildTree_links:
  assumes b: "b < length nodes"
  shows "ID (snd (buildTree nodes) ! b) = ID (nodes ! b) \<and>
         Pid (snd (buildTree nodes) ! b) = Pid (nodes ! b)"
proof -
  from classify_fold [of "length nodes" nodes] obtain heap cm where
    f: "fold classify [0..<length nodes] (nodes, [], Map.empty)
          = (heap, filter (\<lambda>a. Pid (nodes ! a) = 0) [0..<length nodes], cm)"
    and sl: "sameLinks heap nodes"
    by auto
  from sl have len: "length heap = length nodes" by (simp add: sameLinks_def)
  from sl b have same: "ID (heap ! b) = ID (nodes ! b)" "Pid (heap ! b) = Pid (nodes ! b)"
    by (simp_all add: sameLinks_def)
  from attach_fold [of "length nodes" heap cm] len b
  have "fold (attach cm) [0..<length nodes] heap ! b =
                (case cm (ID (heap ! b)) of
                   Some children \<Rightarrow> (heap ! b)\<lparr>Children := children\<rparr>
                 | None \<Rightarrow> heap ! b)"
    by simp
  then have "ID (fold (attach cm) [0..<length nodes] heap ! b) = ID (heap ! b) \<and>
             Pid (fold (attach cm) [0..<length nodes] heap ! b) = Pid (heap ! b)"
    by (simp split: option.splits)
  with same show ?thesis by (simp add: buildTree_def f)
qed

lemma count_list_filter_upt:
  "count_list (filter P [0..<n]) a = (if a < n \<and> P a then 1 else 0)"
  by (induction n) (auto simp: less_Suc_eq)

lemma length_filter_distinct:
  assumes "distinct (map f xs)"
  shows "length (filter (\<lambda>x. f x = v) xs) \<le> 1"
  using assms
proof (induction xs)
  case Nil
  show ?case by simp
next
  case (Cons x xs)
  show ?case
  proof (cases "f x = v")
    case True
    with Cons.prems have "v \<notin> f ` set xs" by simp
    then have "\<forall>y \<in> set xs. f y \<noteq> v" by blast
    then have "filter (\<lambda>x. f x = v) xs = []" by (simp add: filter_empty_conv)
    with True show ?thesis by simp
  next
    case False
    with Cons show ?thesis by simp
  qed
qed

lemma filter_index_length:
  "length (filter (\<lambda>i. P (xs ! i)) [0..<length xs]) = length (filter P xs)"
proof -
  have "filter P xs = filter P (map (nth xs) [0..<length xs])" by (simp add: map_nth)
  also have "\<dots> = map (nth xs) (filter (\<lambda>i. P (xs ! i)) [0..<length xs])"
    by (simp add: filter_map comp_def)
  finally show ?thesis by (metis length_map)
qed

lemma sum_list_map_filter_if:
  "sum_list (map g (filter R xs)) = sum_list (map (\<lambda>x. if R x then g x else (0::nat)) xs)"
  by (induction xs) auto

lemma sum_list_if_length:
  "sum_list (map (\<lambda>x. if P x then (1::nat) else 0) xs) = length (filter P xs)"
  by (induction xs) auto

lemma reachable_rooted:
  assumes tops: "fst forest = filter (\<lambda>a. Pid (nodes ! a) = 0) [0..<length nodes]"
    and len: "length (snd forest) = length nodes"
    and ch: "\<And>b. b < length nodes \<Longrightarrow> Children (snd forest ! b)
                = filter (\<lambda>a. Pid (nodes ! a) = ID (nodes ! b) \<and> Pid (nodes ! a) \<noteq> 0)
                    [0..<length nodes]"
  shows "reachable forest = rooted nodes"
proof (intro set_eqI iffI)
  fix a assume "a \<in> reachable forest"
  then show "a \<in> rooted nodes"
  proof (induction rule: reachable.induct)
    case (top a)
    then show ?case unfolding tops by (intro rooted.root) simp_all
  next
    case (child b a)
    from child(2) have b: "b < length nodes" by (simp only: len)
    from child(3) have "a \<in> set (filter (\<lambda>a. Pid (nodes ! a) = ID (nodes ! b) \<and> Pid (nodes ! a) \<noteq> 0)
                    [0..<length nodes])"
      by (simp only: ch [OF b])
    then have "a < length nodes" "Pid (nodes ! a) \<noteq> 0" "Pid (nodes ! a) = ID (nodes ! b)"
      by auto
    with child(4) show ?case by (rule rooted.under)
  qed
next
  fix a assume "a \<in> rooted nodes"
  then show "a \<in> reachable forest"
  proof (induction rule: rooted.induct)
    case (root a)
    then have "a \<in> set (fst forest)" unfolding tops by simp
    then show ?case by (rule reachable.top)
  next
    case (under b a)
    from under(1) have b: "b < length nodes" by (cases rule: rooted.cases) simp_all
    with under have "a \<in> set (Children (snd forest ! b))" by (simp add: ch)
    with under(5) b show ?case unfolding len [symmetric] by (rule reachable.child)
  qed
qed

lemma forest_occurrences:
  assumes d: "distinct (map ID nodes)"
    and tops: "fst forest = filter (\<lambda>a. Pid (nodes ! a) = 0) [0..<length nodes]"
    and len: "length (snd forest) = length nodes"
    and ch: "\<And>b. b < length nodes \<Longrightarrow> Children (snd forest ! b)
                = filter (\<lambda>a. Pid (nodes ! a) = ID (nodes ! b) \<and> Pid (nodes ! a) \<noteq> 0)
                    [0..<length nodes]"
    and a: "a < length nodes"
  shows "occurrences forest a = (if a \<in> rooted nodes then 1 else 0)"
proof -
  let ?n = "length nodes"
  let ?P = "\<lambda>b. b \<in> rooted nodes \<and> ID (nodes ! b) = Pid (nodes ! a) \<and> Pid (nodes ! a) \<noteq> 0"
  have rr: "reachable forest = rooted nodes" by (rule reachable_rooted [OF tops len ch])
  have cnt: "count_list (Children (snd forest ! b)) a
                 = (if ID (nodes ! b) = Pid (nodes ! a) \<and> Pid (nodes ! a) \<noteq> 0 then 1 else 0)"
    if "b < ?n" for b
    using a by (auto simp: ch [OF that] count_list_filter_upt)
  have "sum_list (map (\<lambda>b. count_list (Children (snd forest ! b)) a)
                  (filter (\<lambda>b. b \<in> reachable forest) [0..<length (snd forest)]))
          = sum_list (map (\<lambda>b. if b \<in> rooted nodes then count_list (Children (snd forest ! b)) a else 0)
                        [0..<?n])"
    unfolding rr len by (rule sum_list_map_filter_if)
  also have "\<dots> = sum_list (map (\<lambda>b. if ?P b then 1 else 0) [0..<?n])"
    by (rule arg_cong [where f = sum_list], rule map_cong [OF refl]) (simp add: cnt)
  also have "\<dots> = length (filter ?P [0..<?n])" by (rule sum_list_if_length)
  finally have s: "sum_list (map (\<lambda>b. count_list (Children (snd forest ! b)) a)
                  (filter (\<lambda>b. b \<in> reachable forest) [0..<length (snd forest)]))
                 = length (filter ?P [0..<?n])" .
  have "length (filter ?P [0..<?n]) \<le> length (filter (\<lambda>b. ID (nodes ! b) = Pid (nodes ! a)) [0..<?n])"
  proof -
    have "filter ?P [0..<?n]
            = filter (\<lambda>b. b \<in> rooted nodes \<and> Pid (nodes ! a) \<noteq> 0)
                (filter (\<lambda>b. ID (nodes ! b) = Pid (nodes ! a)) [0..<?n])"
      by (simp add: conj_ac)
    then show ?thesis by (simp only: length_filter_le)
  qed
  also have "\<dots> = length (filter (\<lambda>x. ID x = Pid (nodes ! a)) nodes)"
    by (rule filter_index_length)
  also have "\<dots> \<le> 1" by (rule length_filter_distinct [OF d])
  finally have le: "length (filter ?P [0..<?n]) \<le> 1" .
  have ct: "count_list (fst forest) a = (if Pid (nodes ! a) = 0 then 1 else 0)"
    unfolding tops using a by (simp add: count_list_filter_upt)
  show ?thesis
  proof (cases "a \<in> rooted nodes")
    case True
    show ?thesis
    proof (cases "Pid (nodes ! a) = 0")
      case z: True
      then have "filter ?P [0..<?n] = []" by simp
      with True z show ?thesis by (simp add: occurrences_def s ct)
    next
      case nz: False
      from True nz obtain b where "b \<in> rooted nodes" "Pid (nodes ! a) = ID (nodes ! b)"
        by (cases rule: rooted.cases) auto
      moreover from this(1) have "b < ?n" by (cases rule: rooted.cases) simp_all
      ultimately have "b \<in> set (filter ?P [0..<?n])" using nz by simp
      then have "0 < length (filter ?P [0..<?n])" by (rule length_pos_if_in_set)
      with le have "length (filter ?P [0..<?n]) = 1" by linarith
      with True nz show ?thesis by (simp add: occurrences_def s ct)
    qed
  next
    case False
    then have nz: "Pid (nodes ! a) \<noteq> 0" using rooted.root [OF a] by blast
    have "filter ?P [0..<?n] = []"
    proof (rule ccontr)
      assume "filter ?P [0..<?n] \<noteq> []"
      then obtain b where "b \<in> set (filter ?P [0..<?n])" by (meson last_in_set)
      then have "b \<in> rooted nodes" "Pid (nodes ! a) = ID (nodes ! b)" by simp_all
      from rooted.under [OF this(1) a nz this(2)] False show False by simp
    qed
    with False nz show ?thesis by (simp add: occurrences_def s ct)
  qed
qed

text \<open>
  Claim C2, as amended. For a node set with unique IDs, as the store returns it (no
  \<open>Children\<close> yet), the forest \<open>ListTreeNodes\<close> returns (the root list and what can be
  reached from it through \<open>Children\<close>) holds exactly the nodes whose chain of parent IDs
  ends at a root, each exactly once: in the root list when its \<open>Pid\<close> is 0, otherwise in
  the \<open>Children\<close> list of its parent (the heap cell at position \<open>b\<close> is node \<open>b\<close> of the
  set, and holds node \<open>a\<close> as a child exactly when the \<open>Pid\<close> of \<open>a\<close> is not 0 and is
  the ID of \<open>b\<close>). No node is in the \<open>Children\<close> list of more than one node of the heap. A node whose chain of parent IDs does not end at a root (a
  parent ID names no node, or the chain runs into a cycle) is not in the forest.
\<close>

theorem ListTreeNodes_forest:
  assumes d: "distinct (map ID nodes)"
    and fresh: "\<forall>n \<in> set nodes. Children n = []"
    and g: "nodeDao_GetAll (nodeDao ts) s = Inr nodes"
  shows "\<exists>topNodes heap.
           ListTreeNodes ts s = Inr (topNodes, heap) \<and> length heap = length nodes \<and>
           (\<forall>a < length nodes.
              occurrences (topNodes, heap) a = (if a \<in> rooted nodes then 1 else 0) \<and>
              (a \<in> reachable (topNodes, heap) \<longleftrightarrow> a \<in> rooted nodes) \<and>
              (a \<in> set topNodes \<longleftrightarrow> Pid (nodes ! a) = 0) \<and>
              ID (heap ! a) = ID (nodes ! a) \<and> Pid (heap ! a) = Pid (nodes ! a) \<and>
              (\<forall>b < length nodes.
                 a \<in> set (Children (heap ! b))
                   \<longleftrightarrow> Pid (nodes ! a) \<noteq> 0 \<and> Pid (nodes ! a) = ID (nodes ! b)) \<and>
              length (parentsOf (topNodes, heap) a) \<le> 1)"
proof -
  let ?n = "length nodes"
  let ?tops = "filter (\<lambda>a. Pid (nodes ! a) = 0) [0..<?n]"
  from buildTree_shape [OF fresh] obtain heap where
    bt: "buildTree nodes = (?tops, heap)" and len: "length heap = ?n"
    and ch: "\<And>b. b < ?n \<Longrightarrow> Children (heap ! b)
                = filter (\<lambda>a. Pid (nodes ! a) = ID (nodes ! b) \<and> Pid (nodes ! a) \<noteq> 0) [0..<?n]"
    by blast
  have l: "ListTreeNodes ts s = Inr (?tops, heap)"
    by (simp add: ListTreeNodes_def g bt)
  have t': "fst (?tops, heap) = ?tops" and len': "length (snd (?tops, heap)) = ?n"
    and ch': "\<And>b. b < ?n \<Longrightarrow> Children (snd (?tops, heap) ! b)
                = filter (\<lambda>a. Pid (nodes ! a) = ID (nodes ! b) \<and> Pid (nodes ! a) \<noteq> 0) [0..<?n]"
    by (simp_all add: len ch)
  have props: "occurrences (?tops, heap) a = (if a \<in> rooted nodes then 1 else 0) \<and>
              (a \<in> reachable (?tops, heap) \<longleftrightarrow> a \<in> rooted nodes) \<and>
              (a \<in> set ?tops \<longleftrightarrow> Pid (nodes ! a) = 0) \<and>
              ID (heap ! a) = ID (nodes ! a) \<and> Pid (heap ! a) = Pid (nodes ! a) \<and>
              (\<forall>b < length nodes.
                 a \<in> set (Children (heap ! b))
                   \<longleftrightarrow> Pid (nodes ! a) \<noteq> 0 \<and> Pid (nodes ! a) = ID (nodes ! b)) \<and>
              length (parentsOf (?tops, heap) a) \<le> 1"
    if a: "a < ?n" for a
  proof (intro conjI)
    show "ID (heap ! a) = ID (nodes ! a)" "Pid (heap ! a) = Pid (nodes ! a)"
      using buildTree_links [OF a] by (simp_all add: bt)
    show "\<forall>b < length nodes.
                 a \<in> set (Children (heap ! b))
                   \<longleftrightarrow> Pid (nodes ! a) \<noteq> 0 \<and> Pid (nodes ! a) = ID (nodes ! b)"
      using a by (auto simp: ch)
    show "occurrences (?tops, heap) a = (if a \<in> rooted nodes then 1 else 0)"
      by (rule forest_occurrences [OF d t' len' ch' a])
    show "a \<in> reachable (?tops, heap) \<longleftrightarrow> a \<in> rooted nodes"
      using reachable_rooted [OF t' len' ch'] by simp
    show "a \<in> set ?tops \<longleftrightarrow> Pid (nodes ! a) = 0" using a by simp
    have "parentsOf (?tops, heap) a
            = filter (\<lambda>b. ID (nodes ! b) = Pid (nodes ! a) \<and> Pid (nodes ! a) \<noteq> 0) [0..<?n]"
      unfolding parentsOf_def snd_conv len
      by (rule filter_cong [OF refl]) (use a in \<open>auto simp: ch\<close>)
    also have "length \<dots> \<le> length (filter (\<lambda>b. ID (nodes ! b) = Pid (nodes ! a)) [0..<?n])"
      by (cases "Pid (nodes ! a) = 0") simp_all
    also have "\<dots> = length (filter (\<lambda>x. ID x = Pid (nodes ! a)) nodes)"
      by (rule filter_index_length)
    also have "\<dots> \<le> 1" by (rule length_filter_distinct [OF d])
    finally show "length (parentsOf (?tops, heap) a) \<le> 1" .
  qed
  from l len props show ?thesis by blast
qed

lemma digits_small: "n < 10 \<Longrightarrow> digits n = [digit_char n]"
  by (simp add: digits.simps [of n])

lemma ex_tree: "ListTreeNodes exService exDb = Inr exForest"
  by (simp add: ListTreeNodes_def exService_def memNodeDao_def exDb_def exNodes_def buildTree_def
        upt_rec [of 0] upt_rec [of 1] upt_rec [of 2] upt_rec [of 3] classify_step attach_def
        sliceAt_def mkNode_def Itoa_def digits_small digit_char_def exForest_def)

lemma orphan_tree: "ListTreeNodes exService exOrphanDb = Inr exOrphanForest"
  by (simp add: ListTreeNodes_def exService_def memNodeDao_def exOrphanDb_def buildTree_def
        upt_rec [of 0] upt_rec [of 1] upt_rec [of 2] upt_rec [of 3] classify_step attach_def
        sliceAt_def mkNode_def Itoa_def digits_small digit_char_def exOrphanForest_def)

lemma orphan_rooted:
  "a \<in> rooted (node_rows exOrphanDb) \<Longrightarrow> a = 0"
proof (induction rule: rooted.induct)
  case (root a)
  then have "a = 0 \<or> a = 1 \<or> a = 2" by (auto simp: exOrphanDb_def)
  with root(2) show ?case by (auto simp: exOrphanDb_def mkNode_def)
next
  case (under b a)
  then have "a = 0 \<or> a = 1 \<or> a = 2" by (auto simp: exOrphanDb_def)
  with under(3,4,5) show ?case by (auto simp: exOrphanDb_def mkNode_def)
qed

lemma buildTree_occurrences:
  assumes d: "distinct (map ID nodes)"
    and fresh: "\<forall>n \<in> set nodes. Children n = []"
    and a: "a < length nodes"
  shows "occurrences (buildTree nodes) a = (if a \<in> rooted nodes then 1 else 0)"
proof -
  from buildTree_shape [OF fresh] obtain heap where
    bt: "buildTree nodes = (filter (\<lambda>a. Pid (nodes ! a) = 0) [0..<length nodes], heap)"
    and len: "length heap = length nodes"
    and ch: "\<And>b. b < length nodes \<Longrightarrow> Children (heap ! b)
                = filter (\<lambda>a. Pid (nodes ! a) = ID (nodes ! b) \<and> Pid (nodes ! a) \<noteq> 0)
                    [0..<length nodes]"
    by blast
  show ?thesis
    unfolding bt by (rule forest_occurrences [OF d _ _ _ a]) (simp_all add: len ch)
qed

text \<open>
  Claim C2 as stated fails: the node at address 1 (ID 5), whose parent ID names no
  node, and the node at address 2 (ID 6) below it are not in the forest the call
  returns, which is the root alone.
\<close>

theorem ListTreeNodes_orphan_counterexample:
  "distinct (map ID (node_rows exOrphanDb)) \<and>
   map Children (node_rows exOrphanDb) = [[], [], []] \<and>
   nodeDao_GetAll (nodeDao exService) exOrphanDb = Inr (node_rows exOrphanDb) \<and>
   ListTreeNodes exService exOrphanDb = Inr exOrphanForest \<and>
   occurrences exOrphanForest 1 = 0 \<and> occurrences exOrphanForest 2 = 0"
proof -
  have d: "distinct (map ID (node_rows exOrphanDb))" by (simp add: exOrphanDb_def mkNode_def)
  have c: "map Children (node_rows exOrphanDb) = [[], [], []]"
    by (simp add: exOrphanDb_def mkNode_def)
  have f: "\<forall>n \<in> set (node_rows exOrphanDb). Children n = []"
    by (simp add: exOrphanDb_def mkNode_def)
  have g: "nodeDao_GetAll (nodeDao exService) exOrphanDb = Inr (node_rows exOrphanDb)"
    by (simp add: exService_def memNodeDao_def)
  have bt: "buildTree (node_rows exOrphanDb) = exOrphanForest"
    using orphan_tree by (simp add: ListTreeNodes_def g)
  have n: "length (node_rows exOrphanDb) = 3" by (simp add: exOrphanDb_def)
  have "1 \<notin> rooted (node_rows exOrphanDb)" "2 \<notin> rooted (node_rows exOrphanDb)"
    using orphan_rooted by fastforce+
  then have "occurrences exOrphanForest 1 = 0" "occurrences exOrphanForest 2 = 0"
    using buildTree_occurrences [OF d f, of 1] buildTree_occurrences [OF d f, of 2]
    by (simp_all add: bt n)
  with d c g orphan_tree show ?thesis by simp
qed

text \<open>
  The example of the specification: the root list is the root (address 0), whose
  children are the two leaves (addresses 1 and 2); each node occurs once.
\<close>

theorem ListTreeNodes_forest_witness:
  "distinct (map ID exNodes) \<and> map Children exNodes = [[], [], []] \<and>
   nodeDao_GetAll (nodeDao exService) exDb = Inr exNodes \<and>
   ListTreeNodes exService exDb = Inr exForest \<and>
   occurrences exForest 0 = 1 \<and> occurrences exForest 1 = 1 \<and> occurrences exForest 2 = 1"
proof -
  have d: "distinct (map ID exNodes)" by (simp add: exNodes_def mkNode_def)
  have c: "map Children exNodes = [[], [], []]" by (simp add: exNodes_def mkNode_def)
  have f: "\<forall>n \<in> set exNodes. Children n = []" by (simp add: exNodes_def mkNode_def)
  have g: "nodeDao_GetAll (nodeDao exService) exDb = Inr exNodes"
    by (simp add: exService_def memNodeDao_def exDb_def)
  from ListTreeNodes_forest [OF d f g] ex_tree
  have o: "\<forall>a < length exNodes. occurrences exForest a = (if a \<in> rooted exNodes then 1 else 0)"
    by auto
  have r0: "0 \<in> rooted exNodes" by (rule rooted.root) (simp_all add: exNodes_def mkNode_def)
  have r1: "1 \<in> rooted exNodes"
    by (rule rooted.under [OF r0]) (simp_all add: exNodes_def mkNode_def)
  have r2: "2 \<in> rooted exNodes"
    by (rule rooted.under [OF r0]) (simp_all add: exNodes_def mkNode_def)
  have n: "length exNodes = 3" by (simp add: exNodes_def)
  from o r0 r1 r2 have "occurrences exForest 0 = 1" "occurrences exForest 1 = 1"
    "occurrences exForest 2 = 1"
    by (simp_all add: n)
  with d c g ex_tree show ?thesis by simp
qed

end
